theory Spec2Isabelle
  imports Main
begin

section \<open>Tic-tac-toe: the board and the minimax player of \<^verbatim>\<open>core.py\<close>\<close>

subsection \<open>Data\<close>

text \<open>
  A cell of \<^verbatim>\<open>TicTacToeGame._board\<close> holds a Python string or \<^verbatim>\<open>None\<close>; the board is
  a Python list. Positions are Python integers (\<open>int\<close>), also the negative ones.
  The exceptions of the module are values of \<open>error\<close>; a method that mutates the board
  returns its outcome together with the board it leaves behind. \<open>RecursionLimit\<close> is the
  interpreter running out of stack frames (the fuel of \<open>mini_max\<close> below).
\<close>

type_synonym cell = "string option"
type_synonym board = "cell list"

datatype error = InvalidSymbol | InvalidMove | AssertionError | IndexError | RecursionLimit

datatype game_status = WIN | DRAW | ACTIVE

type_synonym 'a outcome = "(error + 'a) \<times> board"

definition PLAYER :: string where
  "PLAYER = ''X''"

definition OPPONENT_PLAYER :: string where
  "OPPONENT_PLAYER = ''O''"

definition WIN_POSITIONS :: "(nat \<times> nat \<times> nat) list" where
  "WIN_POSITIONS =
     [(0, 1, 2), (3, 4, 5), (6, 7, 8),
      (0, 3, 6), (1, 4, 7), (2, 5, 8),
      (0, 4, 8), (2, 4, 6)]"

subsection \<open>\<^verbatim>\<open>TicTacToeGame\<close>\<close>

text \<open>\<^verbatim>\<open>__init__\<close>: a fresh board of nine \<^verbatim>\<open>None\<close>, or a copy of the given one after the
  two assertions.\<close>

definition init :: "board option \<Rightarrow> error + board" where
  "init board = (case board of
       None \<Rightarrow> Inr (replicate 9 None)
     | Some b \<Rightarrow>
         if length b \<noteq> 9 then Inl AssertionError
         else if \<not> set b \<subseteq> set [Some PLAYER, Some OPPONENT_PLAYER, None] then Inl AssertionError
         else Inr b)"

text \<open>\<^verbatim>\<open>str.upper\<close> on a byte string: the ASCII letters a to z are shifted, every other
  character stays.\<close>

definition upper_char :: "char \<Rightarrow> char" where
  "upper_char c = (let n = (of_char c :: nat) in
     if 97 \<le> n \<and> n \<le> 122 then char_of (n - 32) else c)"

definition upper :: "string \<Rightarrow> string" where
  "upper s = map upper_char s"

text \<open>Python truthiness of a cell, as \<^verbatim>\<open>ifilter(None, ...)\<close> tests it.\<close>

fun truthy :: "cell \<Rightarrow> bool" where
  "truthy None = False"
| "truthy (Some s) = (s \<noteq> [])"

text \<open>The local function \<^verbatim>\<open>win_cond\<close> of \<^verbatim>\<open>_game_result\<close>: the set of the three cells has
  one element.\<close>

fun win_cond :: "board \<Rightarrow> nat \<times> nat \<times> nat \<Rightarrow> cell" where
  "win_cond b (p0, p1, p2) =
     (if length (remdups (map (\<lambda>pos. b ! pos) [p0, p1, p2])) = 1 then b ! p0 else None)"

text \<open>\<^verbatim>\<open>_game_result\<close>, with the list of lines as a parameter; \<open>game_result\<close> is the method,
  on the class constant.\<close>

definition game_result_on :: "(nat \<times> nat \<times> nat) list \<Rightarrow> board \<Rightarrow> bool \<times> cell" where
  "game_result_on lines b =
     (let winner = (case find truthy (map (win_cond b) lines) of None \<Rightarrow> None | Some w \<Rightarrow> w) in
      if winner \<noteq> None then (True, winner)
      else if None \<notin> set b then (True, None)
      else (False, None))"

definition game_result :: "board \<Rightarrow> bool \<times> cell" where
  "game_result b = game_result_on WIN_POSITIONS b"

definition status :: "board \<Rightarrow> game_status" where
  "status b = (case game_result b of (is_over, winner) \<Rightarrow>
     if is_over then (if winner = None then DRAW else WIN) else ACTIVE)"

definition winner :: "board \<Rightarrow> cell" where
  "winner b = (case game_result b of (is_over, winner) \<Rightarrow>
     if is_over \<and> winner \<noteq> None then winner else None)"

definition is_over :: "board \<Rightarrow> bool" where
  "is_over b = fst (game_result b)"

definition mark :: "string \<Rightarrow> int \<Rightarrow> board \<Rightarrow> unit outcome" where
  "mark symbol pos b =
     (let symbol = upper symbol in
      if symbol \<notin> set [PLAYER, OPPONENT_PLAYER] then (Inl InvalidSymbol, b)
      else if \<not> (0 \<le> pos \<and> pos < 9) then (Inl InvalidMove, b)
      else (Inr (), b[nat pos := Some symbol]))"

text \<open>\<^verbatim>\<open>undo_mark\<close> is a plain list assignment: a negative index counts from the end, an
  index out of range raises \<^verbatim>\<open>IndexError\<close>.\<close>

definition undo_mark :: "int \<Rightarrow> board \<Rightarrow> unit outcome" where
  "undo_mark pos b =
     (let n = int (length b) in
      if 0 \<le> pos \<and> pos < n then (Inr (), b[nat pos := None])
      else if - n \<le> pos \<and> pos < 0 then (Inr (), b[nat (pos + n) := None])
      else (Inl IndexError, b))"

definition available_positions :: "board \<Rightarrow> int list" where
  "available_positions b = map int (filter (\<lambda>pos. b ! pos = None) [0..<length b])"

subsection \<open>\<^verbatim>\<open>ComputerPlayer\<close>\<close>

text \<open>\<^verbatim>\<open>__init__\<close> sets \<^verbatim>\<open>_symbol\<close> to \<^verbatim>\<open>TicTacToeGame.PLAYER\<close> and nothing assigns it again.\<close>

definition self_symbol :: string where
  "self_symbol = PLAYER"

definition next_active_turn :: "string \<Rightarrow> string" where
  "next_active_turn player_symbol = (if player_symbol = ''O'' then ''X'' else ''O'')"

definition score :: "board \<Rightarrow> error + int" where
  "score b =
     (if \<not> is_over b then Inl AssertionError
      else let w = winner b in
        if w = None then Inr 0
        else if w = Some self_symbol then Inr 1
        else Inr (- 1))"

text \<open>Python 2 orders \<^verbatim>\<open>None\<close> below every integer.\<close>

fun py_less :: "int option \<Rightarrow> int option \<Rightarrow> bool" where
  "py_less None (Some y) = True"
| "py_less (Some x) (Some y) = (x < y)"
| "py_less x None = False"

text \<open>
  \<^verbatim>\<open>_mini_max\<close>. The first argument is the number of stack frames left; the \<^verbatim>\<open>for\<close> loop
  over the available positions is \<open>mini_max_loop\<close>, which carries \<^verbatim>\<open>best_score\<close> and
  \<^verbatim>\<open>best_move\<close>. The board is marked, searched and unmarked in place, so every call
  hands back the board it leaves.
\<close>

fun mini_max :: "nat \<Rightarrow> string \<Rightarrow> board \<Rightarrow> (int option \<times> int option) outcome"
  and mini_max_loop ::
    "nat \<Rightarrow> string \<Rightarrow> int list \<Rightarrow> int option \<times> int option \<Rightarrow> board
       \<Rightarrow> (int option \<times> int option) outcome"
where
  "mini_max 0 active_turn b = (Inl RecursionLimit, b)"
| "mini_max (Suc d) active_turn b =
     (if is_over b then
        (case score b of Inl e \<Rightarrow> (Inl e, b) | Inr s \<Rightarrow> (Inr (Some s, None), b))
      else mini_max_loop d active_turn (available_positions b) (None, None) b)"
| "mini_max_loop d active_turn [] best b = (Inr best, b)"
| "mini_max_loop d active_turn (move # moves) best b =
     (case mark active_turn move b of
        (Inl e, b1) \<Rightarrow> (Inl e, b1)
      | (Inr u, b1) \<Rightarrow>
     (case mini_max d (next_active_turn active_turn) b1 of
        (Inl e, b2) \<Rightarrow> (Inl e, b2)
      | (Inr (sc, m), b2) \<Rightarrow>
     (case undo_mark move b2 of
        (Inl e, b3) \<Rightarrow> (Inl e, b3)
      | (Inr u, b3) \<Rightarrow>
          mini_max_loop d active_turn moves
            (if active_turn = self_symbol then
               (if fst best = None \<or> py_less (fst best) sc then (sc, Some move) else best)
             else
               (if fst best = None \<or> py_less sc (fst best) then (sc, Some move) else best))
            b3)))"

text \<open>\<^verbatim>\<open>do_move\<close>. \<^verbatim>\<open>mark(symbol, None)\<close> raises \<^verbatim>\<open>InvalidMove\<close>, since \<^verbatim>\<open>None\<close> is not in
  \<^verbatim>\<open>range(9)\<close>.\<close>

definition do_move :: "nat \<Rightarrow> board \<Rightarrow> unit outcome" where
  "do_move depth b =
     (if is_over b then (Inr (), b)
      else if set b = {None} then mark self_symbol 0 b
      else (case mini_max depth self_symbol b of
              (Inl e, b1) \<Rightarrow> (Inl e, b1)
            | (Inr (s, best_move), b1) \<Rightarrow>
                (case best_move of
                   None \<Rightarrow> (Inl InvalidMove, b1)
                 | Some m \<Rightarrow> mark self_symbol m b1)))"

subsection \<open>Boards the constructor accepts\<close>

text \<open>A board is valid when \<^verbatim>\<open>TicTacToeGame(board)\<close> accepts it; the empty board is the one
  the constructor builds when it is given none.\<close>

definition valid_board :: "board \<Rightarrow> bool" where
  "valid_board b \<longleftrightarrow> init (Some b) = Inr b"

definition empty_board :: board where
  "empty_board = replicate 9 None"

subsection \<open>Completed lines\<close>

text \<open>A symbol completes a line when it holds the line's three cells.\<close>

definition completes :: "board \<Rightarrow> string \<Rightarrow> nat \<times> nat \<times> nat \<Rightarrow> bool" where
  "completes b s l =
     (case l of (p0, p1, p2) \<Rightarrow> b ! p0 = Some s \<and> b ! p1 = Some s \<and> b ! p2 = Some s)"

definition some_line :: "board \<Rightarrow> bool" where
  "some_line b = (\<exists>l \<in> set WIN_POSITIONS. \<exists>s. completes b s l)"

subsection \<open>The score of one move, and a board with a tie\<close>

text \<open>\<open>move_score\<close> is the score the body of the loop of \<^verbatim>\<open>_mini_max\<close> obtains for one move:
  mark, search with the other turn, read the score.\<close>

definition move_score :: "nat \<Rightarrow> string \<Rightarrow> board \<Rightarrow> int \<Rightarrow> int option" where
  "move_score d active_turn b move =
     (case mark active_turn move b of
        (Inl e, b1) \<Rightarrow> None
      | (Inr u, b1) \<Rightarrow>
          (case mini_max d (next_active_turn active_turn) b1 of
             (Inl e, b2) \<Rightarrow> None
           | (Inr (sc, m), b2) \<Rightarrow> sc))"

text \<open>On \<open>tie_board\<close> it is X's turn and both 6 and 8 win at once.\<close>

definition tie_board :: board where
  "tie_board = [Some ''X'', Some ''O'', Some ''X'',
                Some ''O'', Some ''X'', Some ''O'',
                None, None, None]"

subsection \<open>The loop body and the final score\<close>

text \<open>\<open>final_score\<close> is the value \<^verbatim>\<open>_score\<close> returns on a finished game; \<open>keep_best\<close> is the
  update of \<^verbatim>\<open>best_score\<close> and \<^verbatim>\<open>best_move\<close> in the body of the loop of \<^verbatim>\<open>_mini_max\<close>.\<close>

definition final_score :: "board \<Rightarrow> int" where
  "final_score b =
     (if winner b = None then 0 else if winner b = Some self_symbol then 1 else - 1)"

definition keep_best ::
  "string \<Rightarrow> int option \<times> int option \<Rightarrow> int option \<times> int \<Rightarrow> int option \<times> int option" where
  "keep_best active_turn best sm =
     (if active_turn = self_symbol then
        (if fst best = None \<or> py_less (fst best) (fst sm) then (fst sm, Some (snd sm)) else best)
      else
        (if fst best = None \<or> py_less (fst sm) (fst best) then (fst sm, Some (snd sm)) else best))"

subsection \<open>Games against the computer\<close>

text \<open>
  One step of a game: on X's turn the computer plays \<^verbatim>\<open>do_move\<close> (with \<open>d\<close> stack frames for
  the search); on O's turn the opponent marks any empty cell. No step leaves a board on
  which the game is over.
\<close>

inductive play_step :: "nat \<Rightarrow> string \<times> board \<Rightarrow> string \<times> board \<Rightarrow> bool" for d :: nat where
  computer:
    "\<not> is_over b \<Longrightarrow> do_move d b = (Inr (), b')
       \<Longrightarrow> play_step d (PLAYER, b) (OPPONENT_PLAYER, b')"
| opponent:
    "\<not> is_over b \<Longrightarrow> p \<in> set (available_positions b)
       \<Longrightarrow> mark OPPONENT_PLAYER p b = (Inr (), b')
       \<Longrightarrow> play_step d (OPPONENT_PLAYER, b) (PLAYER, b')"

text \<open>A board with X to move on which O threatens both 2 and 6.\<close>

definition lost_board :: board where
  "lost_board = [Some ''O'', Some ''O'', None,
                 Some ''O'', Some ''X'', None,
                 None, None, Some ''X'']"

subsection \<open>Boards of three-valued squares\<close>

text \<open>
  A search with two outcomes on boards of three-valued squares: \<open>xsafe n xt a\<close> looks for
  a way for \<^verbatim>\<open>X\<close> to avoid losing (\<open>xt\<close>: it is X's turn), trying one move of \<^verbatim>\<open>X\<close> after the
  other and all moves of \<^verbatim>\<open>O\<close>. It serves as a checked certificate for the empty board.
\<close>

datatype sq = Blank | Xs | Os

fun cell_of :: "sq \<Rightarrow> cell" where
  "cell_of Blank = None"
| "cell_of Xs = Some ''X''"
| "cell_of Os = Some ''O''"

definition conc :: "sq list \<Rightarrow> board" where
  "conc a = map cell_of a"

fun has_line :: "sq \<Rightarrow> sq list \<Rightarrow> bool" where
  "has_line m [a0, a1, a2, a3, a4, a5, a6, a7, a8] =
     ((a0 = m \<and> a1 = m \<and> a2 = m) \<or> (a3 = m \<and> a4 = m \<and> a5 = m) \<or> (a6 = m \<and> a7 = m \<and> a8 = m) \<or>
      (a0 = m \<and> a3 = m \<and> a6 = m) \<or> (a1 = m \<and> a4 = m \<and> a7 = m) \<or> (a2 = m \<and> a5 = m \<and> a8 = m) \<or>
      (a0 = m \<and> a4 = m \<and> a8 = m) \<or> (a2 = m \<and> a4 = m \<and> a6 = m))"
| "has_line m a = False"

fun xsafe :: "nat \<Rightarrow> bool \<Rightarrow> sq list \<Rightarrow> bool"
  and xsafe_moves :: "nat \<Rightarrow> bool \<Rightarrow> sq list \<Rightarrow> sq list \<Rightarrow> bool"
where
  "xsafe 0 xt a = False"
| "xsafe (Suc n) xt a =
     (if has_line Os a then False
      else if has_line Xs a then True
      else if Blank \<notin> set a then True
      else xsafe_moves n xt [] a)"
| "xsafe_moves n xt pre [] = (\<not> xt)"
| "xsafe_moves n xt pre (c # suf) =
     (if c = Blank then
        (if xt then
           (if xsafe n False (pre @ Xs # suf) then True else xsafe_moves n xt (pre @ [c]) suf)
         else
           (if xsafe n True (pre @ Os # suf) then xsafe_moves n xt (pre @ [c]) suf else False))
      else xsafe_moves n xt (pre @ [c]) suf)"

subsection \<open>Recursion on the number of empty cells\<close>

text \<open>
  Marking an available position leaves fewer available positions; the two functions
  below recurse on that. \<open>minimax\<close> is what \<open>mini_max\<close> computes, without the stack depth and
  without the board it hands back: the score at a finished game, and otherwise the
  loop's accumulator folded over the available positions (\<open>mini_max_correct\<close> proves the
  two equal). \<open>child_score\<close> is its score for one move.
\<close>

lemma available_iff:
  "p \<in> set (available_positions b) \<longleftrightarrow> 0 \<le> p \<and> nat p < length b \<and> b ! nat p = None"
proof
  assume "p \<in> set (available_positions b)"
  then obtain i where "p = int i" "i < length b" "b ! i = None"
    by (auto simp: available_positions_def)
  then show "0 \<le> p \<and> nat p < length b \<and> b ! nat p = None" by simp
next
  assume a: "0 \<le> p \<and> nat p < length b \<and> b ! nat p = None"
  then have "nat p \<in> set (filter (\<lambda>pos. b ! pos = None) [0..<length b])" by simp
  then have "int (nat p) \<in> set (available_positions b)"
    unfolding available_positions_def by (simp only: set_map image_eqI)
  with a show "p \<in> set (available_positions b)" by simp
qed

lemma available_less:
  assumes "m \<in> set (available_positions b)"
  shows "length (available_positions (b[nat m := Some t])) < length (available_positions b)"
proof -
  let ?P = "\<lambda>c i. c ! i = None"
  let ?b = "b[nat m := Some t]"
  from assms have m: "nat m < length b" "b ! nat m = None" by (auto simp: available_iff)
  have len: "\<And>c. length (available_positions c) = card {i. i < length c \<and> c ! i = None}"
  proof -
    fix c :: board
    have "length (available_positions c) = length (filter (?P c) [0..<length c])"
      by (simp add: available_positions_def)
    also have "\<dots> = card (set (filter (?P c) [0..<length c]))"
      by (rule distinct_card [symmetric]) simp
    also have "set (filter (?P c) [0..<length c]) = {i. i < length c \<and> c ! i = None}"
      by auto
    finally show "length (available_positions c) = card {i. i < length c \<and> c ! i = None}" .
  qed
  have "{i. i < length ?b \<and> ?b ! i = None} \<subset> {i. i < length b \<and> b ! i = None}"
  proof
    show "{i. i < length ?b \<and> ?b ! i = None} \<subseteq> {i. i < length b \<and> b ! i = None}"
    proof (clarsimp)
      fix x assume "x < length b" "b[nat m := Some t] ! x = None"
      then show "b ! x = None" by (cases "x = nat m") auto
    qed
    from m have "nat m \<in> {i. i < length b \<and> b ! i = None}" by simp
    moreover from m have "nat m \<notin> {i. i < length ?b \<and> ?b ! i = None}" by simp
    ultimately show "{i. i < length ?b \<and> ?b ! i = None} \<noteq> {i. i < length b \<and> b ! i = None}"
      by blast
  qed
  then have "card {i. i < length ?b \<and> ?b ! i = None} < card {i. i < length b \<and> b ! i = None}"
    by (intro psubset_card_mono) auto
  then show ?thesis by (simp only: len)
qed

function minimax :: "string \<Rightarrow> board \<Rightarrow> int option \<times> int option" where
  "minimax t b =
     (if is_over b then (Some (final_score b), None)
      else fold (\<lambda>m best. keep_best t best
                   (fst (minimax (next_active_turn t) (b[nat m := Some t])), m))
             (available_positions b) (None, None))"
  by pat_completeness auto
termination
  by (relation "measure (\<lambda>(t, b). length (available_positions b))") (auto simp: available_less)

declare minimax.simps [simp del]

definition child_score :: "string \<Rightarrow> board \<Rightarrow> int \<Rightarrow> int option" where
  "child_score t b m = fst (minimax (next_active_turn t) (b[nat m := Some t]))"

text \<open>
  \<open>opp_forced_win t b\<close>: with \<open>t\<close> to move on \<open>b\<close>, the opponent \<^verbatim>\<open>O\<close> wins whatever \<^verbatim>\<open>X\<close> plays.
  On a finished game that is a win of \<^verbatim>\<open>O\<close>; when \<^verbatim>\<open>O\<close> is to move, some empty cell leads to
  a forced win; when \<^verbatim>\<open>X\<close> is to move, every empty cell does.
\<close>

function opp_forced_win :: "string \<Rightarrow> board \<Rightarrow> bool" where
  "opp_forced_win t b =
     (if is_over b then winner b = Some OPPONENT_PLAYER
      else if t = OPPONENT_PLAYER then
        (\<exists>p \<in> set (available_positions b).
            opp_forced_win PLAYER (b[nat p := Some OPPONENT_PLAYER]))
      else
        (\<forall>p \<in> set (available_positions b).
            opp_forced_win OPPONENT_PLAYER (b[nat p := Some PLAYER])))"
  by pat_completeness auto
termination
  by (relation "measure (\<lambda>(t, b). length (available_positions b))") (auto simp: available_less)

declare opp_forced_win.simps [simp del]

section \<open>Properties\<close>

subsection \<open>Marking a cell\<close>

lemma valid_board_iff:
  "valid_board b \<longleftrightarrow> length b = 9 \<and> set b \<subseteq> {Some ''X'', Some ''O'', None}"
  by (auto simp: valid_board_def init_def PLAYER_def OPPONENT_PLAYER_def)

lemma upper_X [simp]: "upper ''X'' = ''X''"
  by (simp add: upper_def upper_char_def)

lemma upper_O [simp]: "upper ''O'' = ''O''"
  by (simp add: upper_def upper_char_def)

lemma upper_z: "upper ''z'' = ''Z''"
  by code_simp

lemma upper_o: "upper ''o'' = ''O''"
  by code_simp

lemma mark_cases:
  "mark symbol pos b =
     (if upper symbol \<noteq> ''X'' \<and> upper symbol \<noteq> ''O'' then (Inl InvalidSymbol, b)
      else if pos < 0 \<or> 9 \<le> pos then (Inl InvalidMove, b)
      else (Inr (), b[nat pos := Some (upper symbol)]))"
  by (auto simp: mark_def Let_def PLAYER_def OPPONENT_PLAYER_def)

text \<open>
  Claim C3. \<^verbatim>\<open>mark(symbol, pos)\<close> raises \<^verbatim>\<open>InvalidSymbol\<close> exactly when the uppercased
  symbol is neither \<^verbatim>\<open>'X'\<close> nor \<^verbatim>\<open>'O'\<close>, raises \<^verbatim>\<open>InvalidMove\<close> exactly when the symbol is
  valid and the position lies outside \<open>[0, 9)\<close>, and succeeds otherwise; when it raises,
  the board is what it was. \<^verbatim>\<open>mark('z', 0)\<close> raises \<^verbatim>\<open>InvalidSymbol\<close> and \<^verbatim>\<open>mark('X', 9)\<close>
  raises \<^verbatim>\<open>InvalidMove\<close>.
\<close>

theorem mark_errors:
  "(fst (mark symbol pos b) = Inl InvalidSymbol \<longleftrightarrow> upper symbol \<notin> {''X'', ''O''})
   \<and> (fst (mark symbol pos b) = Inl InvalidMove \<longleftrightarrow>
        upper symbol \<in> {''X'', ''O''} \<and> \<not> (0 \<le> pos \<and> pos < 9))
   \<and> (fst (mark symbol pos b) = Inr () \<longleftrightarrow>
        upper symbol \<in> {''X'', ''O''} \<and> 0 \<le> pos \<and> pos < 9)
   \<and> (fst (mark symbol pos b) \<noteq> Inr () \<longrightarrow> snd (mark symbol pos b) = b)
   \<and> mark ''z'' 0 b = (Inl InvalidSymbol, b)
   \<and> mark ''X'' 9 b = (Inl InvalidMove, b)"
  by (auto simp: mark_cases upper_z)

theorem mark_errors_witness:
  "fst (mark ''o'' (- 1) [Some ''X'', None, None, None, None, None, None, None, None])
     = Inl InvalidMove
   \<and> snd (mark ''o'' (- 1) [Some ''X'', None, None, None, None, None, None, None, None])
     = [Some ''X'', None, None, None, None, None, None, None, None]"
  using mark_errors [of "''o''" "- 1" "[Some ''X'', None, None, None, None, None, None, None, None]"]
  by (simp add: upper_o)

text \<open>
  Claim C10. The symbol is checked before the position: a symbol whose uppercased form is
  neither \<^verbatim>\<open>'X'\<close> nor \<^verbatim>\<open>'O'\<close> raises \<^verbatim>\<open>InvalidSymbol\<close> at every position, also one outside
  \<open>[0, 9)\<close>, and never \<^verbatim>\<open>InvalidMove\<close>; so does \<^verbatim>\<open>mark('z', 99)\<close>.
\<close>

theorem mark_symbol_first:
  "(upper symbol \<notin> {''X'', ''O''} \<longrightarrow>
      mark symbol pos b = (Inl InvalidSymbol, b) \<and> fst (mark symbol pos b) \<noteq> Inl InvalidMove)
   \<and> mark ''z'' 99 b = (Inl InvalidSymbol, b)"
  by (auto simp: mark_cases upper_z)

theorem mark_symbol_first_witness:
  "mark ''z'' (- 5) [None, None, None, None, None, None, None, None, None]
     = (Inl InvalidSymbol, [None, None, None, None, None, None, None, None, None])
   \<and> fst (mark ''z'' (- 5) [None, None, None, None, None, None, None, None, None])
       \<noteq> Inl InvalidMove"
  using mark_symbol_first [of "''z''" "- 5" "[None, None, None, None, None, None, None, None, None]"]
  by (simp add: upper_z)

text \<open>
  Claim C4. With a valid symbol and a position in \<open>[0, 9)\<close>, \<^verbatim>\<open>mark\<close> raises nothing and
  writes the uppercased symbol into the cell, whatever the cell held before; every other
  cell keeps its value.
\<close>

theorem mark_overwrites:
  assumes "upper symbol \<in> {''X'', ''O''}" and "0 \<le> pos" and "pos < 9" and "length b = 9"
  shows "mark symbol pos b = (Inr (), b[nat pos := Some (upper symbol)])
         \<and> length (snd (mark symbol pos b)) = 9
         \<and> snd (mark symbol pos b) ! nat pos = Some (upper symbol)
         \<and> (\<forall>i. i \<noteq> nat pos \<longrightarrow> snd (mark symbol pos b) ! i = b ! i)"
  using assms by (auto simp: mark_cases)

theorem mark_overwrites_witness:
  "mark ''o'' 0 [Some ''X'', None, None, None, Some ''X'', None, None, None, None]
     = (Inr (), [Some ''O'', None, None, None, Some ''X'', None, None, None, None])"
  using mark_overwrites [of "''o''" 0 "[Some ''X'', None, None, None, Some ''X'', None, None, None, None]"]
  by (simp add: upper_o)

subsection \<open>The first move\<close>

lemma is_over_empty: "\<not> is_over empty_board"
  by (simp add: is_over_def game_result_def game_result_on_def WIN_POSITIONS_def empty_board_def
      numeral_eq_Suc)

text \<open>
  Claim C9. On the board of nine empty cells \<^verbatim>\<open>do_move\<close> marks \<^verbatim>\<open>X\<close> at position 0. It takes
  the special case and does not search: the result is the same with no stack frame left
  for \<^verbatim>\<open>_mini_max\<close> (depth 0).
\<close>

theorem do_move_empty_board:
  "do_move depth (replicate 9 None) = (Inr (), (replicate 9 None)[0 := Some ''X''])
   \<and> (replicate 9 None)[0 := Some ''X'']
       = [Some ''X'', None, None, None, None, None, None, None, None]"
  using is_over_empty
  by (simp add: do_move_def empty_board_def mark_cases self_symbol_def PLAYER_def numeral_eq_Suc)

subsection \<open>Status and winner\<close>

lemma win_cond_eq:
  "win_cond b (p0, p1, p2) = (if b ! p0 = b ! p1 \<and> b ! p1 = b ! p2 then b ! p0 else None)"
  by auto

lemma line_in_range: "(p0, p1, p2) \<in> set WIN_POSITIONS \<Longrightarrow> p0 < 9 \<and> p1 < 9 \<and> p2 < 9"
  by (auto simp: WIN_POSITIONS_def)

lemma valid_cell:
  "valid_board b \<Longrightarrow> i < 9 \<Longrightarrow> b ! i = None \<or> b ! i = Some ''X'' \<or> b ! i = Some ''O''"
proof -
  assume v: "valid_board b" and i: "i < 9"
  then have "b ! i \<in> set b" by (simp add: valid_board_iff)
  with v show ?thesis unfolding valid_board_iff by blast
qed

lemma truthy_win_cond:
  assumes "valid_board b" and "l \<in> set WIN_POSITIONS"
  shows "truthy (win_cond b l) \<longleftrightarrow> (\<exists>s. completes b s l)"
    and "win_cond b l = Some s \<longleftrightarrow> completes b s l"
proof -
  obtain p0 p1 p2 where l: "l = (p0, p1, p2)" by (cases l) auto
  with assms have "p0 < 9" by (auto dest: line_in_range)
  from valid_cell [OF assms(1) this]
  show "truthy (win_cond b l) \<longleftrightarrow> (\<exists>s. completes b s l)"
    unfolding l win_cond_eq completes_def by auto
  show "win_cond b l = Some s \<longleftrightarrow> completes b s l"
    unfolding l win_cond_eq completes_def by auto
qed

lemma find_truthy_None:
  assumes "valid_board b" and "set lines \<subseteq> set WIN_POSITIONS"
  shows "find truthy (map (win_cond b) lines) = None \<longleftrightarrow> \<not> (\<exists>l \<in> set lines. \<exists>s. completes b s l)"
proof -
  have "\<And>l. l \<in> set lines \<Longrightarrow> truthy (win_cond b l) \<longleftrightarrow> (\<exists>s. completes b s l)"
    using assms truthy_win_cond(1) by blast
  then show ?thesis
    by (auto simp add: find_None_iff simp del: win_cond.simps)
qed

lemma find_truthy_Some:
  assumes "valid_board b" and "set lines \<subseteq> set WIN_POSITIONS"
    and "find truthy (map (win_cond b) lines) = Some w"
  shows "\<exists>l \<in> set lines. \<exists>s. w = Some s \<and> completes b s l"
proof -
  from assms(3) obtain i where i: "i < length lines" "truthy (win_cond b (lines ! i))"
    "w = win_cond b (lines ! i)"
    by (auto simp: find_Some_iff)
  let ?l = "lines ! i"
  have mem: "?l \<in> set lines" using i(1) by simp
  then have "?l \<in> set WIN_POSITIONS" using assms(2) by auto
  from i(2) obtain s where "win_cond b ?l = Some s" by (cases "win_cond b ?l") auto
  with truthy_win_cond(2) [OF assms(1) \<open>?l \<in> set WIN_POSITIONS\<close>] i(3) mem show ?thesis
    by auto
qed

lemma game_result_on_cases:
  assumes "valid_board b" and "set lines \<subseteq> set WIN_POSITIONS"
  shows "(\<exists>l \<in> set lines. \<exists>s. completes b s l \<and> game_result_on lines b = (True, Some s))
         \<or> (\<not> (\<exists>l \<in> set lines. \<exists>s. completes b s l) \<and> None \<notin> set b
              \<and> game_result_on lines b = (True, None))
         \<or> (\<not> (\<exists>l \<in> set lines. \<exists>s. completes b s l) \<and> None \<in> set b
              \<and> game_result_on lines b = (False, None))"
proof (cases "find truthy (map (win_cond b) lines)")
  case None
  with find_truthy_None [OF assms] show ?thesis
    by (auto simp: game_result_on_def)
next
  case (Some w)
  from find_truthy_Some [OF assms Some] Some show ?thesis
    by (auto simp: game_result_on_def)
qed

lemma game_result_cases:
  assumes "valid_board b"
  shows "(\<exists>l \<in> set WIN_POSITIONS. \<exists>s. completes b s l \<and> game_result b = (True, Some s))
         \<or> (\<not> some_line b \<and> None \<notin> set b \<and> game_result b = (True, None))
         \<or> (\<not> some_line b \<and> None \<in> set b \<and> game_result b = (False, None))"
  using game_result_on_cases [OF assms, of WIN_POSITIONS]
  unfolding game_result_def some_line_def by simp

text \<open>
  Claim C2. On a valid board the status is one of \<^verbatim>\<open>ACTIVE\<close>, \<^verbatim>\<open>WIN\<close>, \<^verbatim>\<open>DRAW\<close>: \<^verbatim>\<open>WIN\<close> exactly
  when one non-empty symbol holds the three cells of a line of \<^verbatim>\<open>WIN_POSITIONS\<close>, \<^verbatim>\<open>DRAW\<close>
  exactly when no cell is empty and no line is completed, \<^verbatim>\<open>ACTIVE\<close> otherwise. The winner
  is not \<^verbatim>\<open>None\<close> exactly when the status is \<^verbatim>\<open>WIN\<close>, and then it is a symbol that completes
  a line; it is \<^verbatim>\<open>None\<close> on a draw and on an active board.
\<close>

theorem status_winner:
  assumes "valid_board b"
  shows "status b \<in> {ACTIVE, WIN, DRAW}
    \<and> (status b = WIN \<longleftrightarrow> (\<exists>l \<in> set WIN_POSITIONS. \<exists>s. s \<noteq> [] \<and> completes b s l))
    \<and> (status b = DRAW \<longleftrightarrow> None \<notin> set b \<and> \<not> (\<exists>l \<in> set WIN_POSITIONS. \<exists>s. completes b s l))
    \<and> (status b = ACTIVE \<longleftrightarrow> None \<in> set b \<and> \<not> (\<exists>l \<in> set WIN_POSITIONS. \<exists>s. completes b s l))
    \<and> (winner b \<noteq> None \<longleftrightarrow> status b = WIN)
    \<and> (\<forall>s. winner b = Some s \<longrightarrow> (\<exists>l \<in> set WIN_POSITIONS. completes b s l))
    \<and> (status b = DRAW \<or> status b = ACTIVE \<longrightarrow> winner b = None)"
proof -
  have ne: "\<And>l s. l \<in> set WIN_POSITIONS \<Longrightarrow> completes b s l \<Longrightarrow> s \<noteq> []"
  proof -
    fix l s assume l: "l \<in> set WIN_POSITIONS" and c: "completes b s l"
    obtain p0 p1 p2 where "l = (p0, p1, p2)" by (cases l) auto
    with l c valid_cell [OF assms, of p0] line_in_range [of p0 p1 p2] show "s \<noteq> []"
      by (auto simp: completes_def)
  qed
  have sl: "some_line b \<longleftrightarrow> (\<exists>l \<in> set WIN_POSITIONS. \<exists>s. s \<noteq> [] \<and> completes b s l)"
    unfolding some_line_def using ne by blast
  from game_result_cases [OF assms]
  consider l s where "l \<in> set WIN_POSITIONS" "completes b s l" "game_result b = (True, Some s)"
    | "\<not> some_line b" "None \<notin> set b" "game_result b = (True, None)"
    | "\<not> some_line b" "None \<in> set b" "game_result b = (False, None)"
    by blast
  then have "status b \<in> {ACTIVE, WIN, DRAW}
    \<and> (status b = WIN \<longleftrightarrow> some_line b)
    \<and> (status b = DRAW \<longleftrightarrow> None \<notin> set b \<and> \<not> some_line b)
    \<and> (status b = ACTIVE \<longleftrightarrow> None \<in> set b \<and> \<not> some_line b)
    \<and> (winner b \<noteq> None \<longleftrightarrow> status b = WIN)
    \<and> (\<forall>s. winner b = Some s \<longrightarrow> (\<exists>l \<in> set WIN_POSITIONS. completes b s l))
    \<and> (status b = DRAW \<or> status b = ACTIVE \<longrightarrow> winner b = None)"
  proof cases
    case 1
    then have "some_line b" unfolding some_line_def by blast
    with 1 show ?thesis by (auto simp: status_def winner_def)
  next
    case 2
    then show ?thesis by (simp add: status_def winner_def)
  next
    case 3
    then show ?thesis by (simp add: status_def winner_def)
  qed
  then show ?thesis
    unfolding sl [symmetric] some_line_def [symmetric] .
qed

theorem status_winner_witness:
  "valid_board [Some ''X'', Some ''X'', Some ''X'', Some ''O'', Some ''O'', None, None, None, None]
   \<and> status [Some ''X'', Some ''X'', Some ''X'', Some ''O'', Some ''O'', None, None, None, None] = WIN
   \<and> winner [Some ''X'', Some ''X'', Some ''X'', Some ''O'', Some ''O'', None, None, None, None] = Some ''X''"
proof -
  let ?b = "[Some ''X'', Some ''X'', Some ''X'', Some ''O'', Some ''O'', None, None, None, None]"
  have v: "valid_board ?b" by (simp add: valid_board_iff)
  have w: "winner ?b = Some ''X''"
    by (simp add: winner_def game_result_def game_result_on_def WIN_POSITIONS_def)
  from status_winner [OF v] have "(winner ?b \<noteq> None) = (status ?b = WIN)"
    by (elim conjE)
  with w v show ?thesis by simp
qed

subsection \<open>Lines after a legal move\<close>

lemma is_over_iff: "valid_board b \<Longrightarrow> is_over b \<longleftrightarrow> some_line b \<or> None \<notin> set b"
  using game_result_cases [of b] unfolding is_over_def some_line_def by auto

lemma valid_update:
  "valid_board b \<Longrightarrow> c \<in> {Some ''X'', Some ''O'', None} \<Longrightarrow> valid_board (b[i := c])"
  unfolding valid_board_iff using set_update_subset_insert [of b i c] by auto

lemma completes_update:
  assumes "completes (b[i := Some t]) s l" and "l \<in> set WIN_POSITIONS" and "length b = 9"
  shows "completes b s l \<or> s = t"
proof -
  obtain p0 p1 p2 where l: "l = (p0, p1, p2)" by (cases l) auto
  with assms(2) have r: "p0 < 9 \<and> p1 < 9 \<and> p2 < 9" by (auto dest: line_in_range)
  show ?thesis
  proof (cases "i = p0 \<or> i = p1 \<or> i = p2")
    case True
    with assms(1,3) r show ?thesis unfolding l completes_def by auto
  next
    case False
    with assms(1) show ?thesis unfolding l completes_def by auto
  qed
qed

lemma new_lines_are_movers:
  assumes v: "valid_board b" and a: "\<not> is_over b" and l: "l \<in> set WIN_POSITIONS"
    and c: "completes (b[i := Some t]) s l"
  shows "s = t"
proof -
  from v have len: "length b = 9" by (simp add: valid_board_iff)
  from a v have "\<not> some_line b" by (simp add: is_over_iff)
  with l have "\<not> completes b s l" unfolding some_line_def by blast
  with completes_update [OF c l len] show ?thesis by simp
qed

lemma game_result_on_one_symbol:
  assumes v: "valid_board b" and sub: "set lines \<subseteq> set WIN_POSITIONS"
    and one: "\<And>l s. l \<in> set WIN_POSITIONS \<Longrightarrow> completes b s l \<Longrightarrow> s = t"
  shows "game_result_on lines b =
    (if \<exists>l \<in> set lines. completes b t l then (True, Some t)
     else if None \<notin> set b then (True, None) else (False, None))"
proof -
  have eq: "(\<exists>l \<in> set lines. \<exists>s. completes b s l) \<longleftrightarrow> (\<exists>l \<in> set lines. completes b t l)"
    using sub one by blast
  from game_result_on_cases [OF v sub]
  consider l s where "l \<in> set lines" "completes b s l" "game_result_on lines b = (True, Some s)"
    | "\<not> (\<exists>l \<in> set lines. \<exists>s. completes b s l)" "None \<notin> set b"
      "game_result_on lines b = (True, None)"
    | "\<not> (\<exists>l \<in> set lines. \<exists>s. completes b s l)" "None \<in> set b"
      "game_result_on lines b = (False, None)"
    by blast
  then show ?thesis
  proof cases
    case 1
    with sub one have "s = t" by blast
    with 1 show ?thesis by auto
  next
    case 2
    with eq show ?thesis by simp
  next
    case 3
    with eq show ?thesis by simp
  qed
qed

text \<open>
  Claim C6, amended. The constructor accepts boards on which both symbols hold a completed
  line (\<open>two_symbols_counterexample\<close> below), and there the winner is the symbol of the
  first completed line of \<^verbatim>\<open>WIN_POSITIONS\<close>. What holds is the statement for legal play:
  on a board reached from a valid board on which the game is not over by marking one
  empty cell, every completed line holds the symbol just marked, so at most one symbol
  completes a line and the result does not depend on the order of the lines.
\<close>

theorem one_symbol_after_legal_move:
  assumes "valid_board b" and "\<not> is_over b" and "p \<in> set (available_positions b)"
    and "upper symbol \<in> {''X'', ''O''}"
  shows "fst (mark symbol p b) = Inr ()
    \<and> valid_board (snd (mark symbol p b))
    \<and> (\<forall>l \<in> set WIN_POSITIONS. \<forall>s. completes (snd (mark symbol p b)) s l \<longrightarrow> s = upper symbol)
    \<and> (\<forall>lines. set lines = set WIN_POSITIONS \<longrightarrow>
          game_result_on lines (snd (mark symbol p b)) = game_result (snd (mark symbol p b)))"
proof -
  let ?t = "upper symbol"
  let ?b = "b[nat p := Some ?t]"
  from assms(1) have len: "length b = 9" by (simp add: valid_board_iff)
  from assms(3) len have p: "0 \<le> p" "p < 9" by (auto simp: available_iff)
  with assms(4) have m: "mark symbol p b = (Inr (), ?b)" by (auto simp: mark_cases)
  from assms(1,4) have v: "valid_board ?b" by (auto intro: valid_update)
  have one: "\<And>l s. l \<in> set WIN_POSITIONS \<Longrightarrow> completes ?b s l \<Longrightarrow> s = ?t"
    using new_lines_are_movers [OF assms(1,2)] by blast
  have "game_result_on lines ?b = game_result ?b" if "set lines = set WIN_POSITIONS" for lines
    unfolding game_result_def
    using game_result_on_one_symbol [OF v _ one, of lines]
      game_result_on_one_symbol [OF v _ one, of WIN_POSITIONS] that
    by simp
  with m v one show ?thesis by simp
qed

theorem one_symbol_after_legal_move_witness:
  "valid_board [Some ''X'', Some ''X'', None, Some ''O'', Some ''O'', None, None, None, None]
   \<and> \<not> is_over [Some ''X'', Some ''X'', None, Some ''O'', Some ''O'', None, None, None, None]
   \<and> 2 \<in> set (available_positions
         [Some ''X'', Some ''X'', None, Some ''O'', Some ''O'', None, None, None, None])
   \<and> upper ''x'' \<in> {''X'', ''O''}
   \<and> game_result_on (rev WIN_POSITIONS)
         (snd (mark ''x'' 2 [Some ''X'', Some ''X'', None, Some ''O'', Some ''O'', None, None, None, None]))
       = game_result
         (snd (mark ''x'' 2 [Some ''X'', Some ''X'', None, Some ''O'', Some ''O'', None, None, None, None]))"
proof -
  let ?b = "[Some ''X'', Some ''X'', None, Some ''O'', Some ''O'', None, None, None, None]"
  have v: "valid_board ?b" by (simp add: valid_board_iff)
  have a: "\<not> is_over ?b"
    by (simp add: is_over_def game_result_def game_result_on_def WIN_POSITIONS_def)
  have p: "2 \<in> set (available_positions ?b)" by (simp add: available_iff)
  have u: "upper ''x'' \<in> {''X'', ''O''}" by code_simp
  from one_symbol_after_legal_move [OF v a p u]
  have "\<forall>lines. set lines = set WIN_POSITIONS \<longrightarrow>
          game_result_on lines (snd (mark ''x'' 2 ?b)) = game_result (snd (mark ''x'' 2 ?b))"
    by (elim conjE)
  then have "game_result_on (rev WIN_POSITIONS) (snd (mark ''x'' 2 ?b))
      = game_result (snd (mark ''x'' 2 ?b))"
    by simp
  with v a p u show ?thesis by (intro conjI)
qed

theorem two_symbols_counterexample:
  "valid_board [Some ''X'', Some ''X'', Some ''X'', Some ''O'', Some ''O'', Some ''O'', None, None, None]
   \<and> (0, 1, 2) \<in> set WIN_POSITIONS
   \<and> completes [Some ''X'', Some ''X'', Some ''X'', Some ''O'', Some ''O'', Some ''O'', None, None, None]
        ''X'' (0, 1, 2)
   \<and> (3, 4, 5) \<in> set WIN_POSITIONS
   \<and> completes [Some ''X'', Some ''X'', Some ''X'', Some ''O'', Some ''O'', Some ''O'', None, None, None]
        ''O'' (3, 4, 5)
   \<and> game_result [Some ''X'', Some ''X'', Some ''X'', Some ''O'', Some ''O'', Some ''O'', None, None, None]
       = (True, Some ''X'')
   \<and> game_result_on (rev WIN_POSITIONS)
        [Some ''X'', Some ''X'', Some ''X'', Some ''O'', Some ''O'', Some ''O'', None, None, None]
       = (True, Some ''O'')"
  by (simp add: valid_board_iff WIN_POSITIONS_def completes_def game_result_def game_result_on_def)

subsection \<open>The search as a function of the board\<close>

lemma score_final: "is_over b \<Longrightarrow> score b = Inr (final_score b)"
  by (simp add: score_def final_score_def Let_def)

lemma next_active_turn_valid: "next_active_turn t \<in> {''X'', ''O''}"
  by (simp add: next_active_turn_def)

lemma mark_available:
  assumes "valid_board b" and "t \<in> {''X'', ''O''}" and "m \<in> set (available_positions b)"
  shows "mark t m b = (Inr (), b[nat m := Some t])"
    and "undo_mark m (b[nat m := Some t]) = (Inr (), b)"
    and "valid_board (b[nat m := Some t])"
proof -
  from assms(1) have len: "length b = 9" by (simp add: valid_board_iff)
  from assms(3) len have m: "0 \<le> m" "m < 9" "b ! nat m = None" by (auto simp: available_iff)
  from m assms(2) show "mark t m b = (Inr (), b[nat m := Some t])" by (auto simp: mark_cases)
  have "b[nat m := None] = b" using m(3) by (metis list_update_id)
  with m len show "undo_mark m (b[nat m := Some t]) = (Inr (), b)"
    by (simp add: undo_mark_def)
  from assms(1,2) show "valid_board (b[nat m := Some t])" by (auto intro: valid_update)
qed

lemma mini_max_loop_fold:
  assumes "valid_board b" and "t \<in> {''X'', ''O''}"
    and "set moves \<subseteq> set (available_positions b)"
    and "\<And>m. m \<in> set moves \<Longrightarrow>
           mini_max d (next_active_turn t) (b[nat m := Some t])
             = (Inr (minimax (next_active_turn t) (b[nat m := Some t])), b[nat m := Some t])"
  shows "mini_max_loop d t moves best b
    = (Inr (fold (\<lambda>m best. keep_best t best
                    (fst (minimax (next_active_turn t) (b[nat m := Some t])), m)) moves best), b)"
  using assms(3,4)
proof (induction moves arbitrary: best)
  case Nil
  show ?case by simp
next
  case (Cons m moves)
  from Cons.prems(1) have m: "m \<in> set (available_positions b)" by simp
  note mk = mark_available [OF assms(1,2) m]
  have rec: "mini_max d (next_active_turn t) (b[nat m := Some t])
      = (Inr (minimax (next_active_turn t) (b[nat m := Some t])), b[nat m := Some t])"
    using Cons.prems(2) by simp
  have step: "mini_max_loop d t (m # moves) best b
      = mini_max_loop d t moves
          (keep_best t best (fst (minimax (next_active_turn t) (b[nat m := Some t])), m)) b"
    by (simp add: mk(1,2) rec keep_best_def split: prod.splits)
  show ?case
    unfolding step using Cons.IH [of "keep_best t best (fst (minimax (next_active_turn t) (b[nat m := Some t])), m)"] Cons.prems
    by simp
qed

lemma mini_max_correct:
  "valid_board b \<Longrightarrow> t \<in> {''X'', ''O''} \<Longrightarrow> length (available_positions b) < d
     \<Longrightarrow> mini_max d t b = (Inr (minimax t b), b)"
proof (induction d arbitrary: t b)
  case 0
  then show ?case by simp
next
  case (Suc d)
  show ?case
  proof (cases "is_over b")
    case True
    then show ?thesis by (simp add: score_final minimax.simps [of t b])
  next
    case False
    have "mini_max_loop d t (available_positions b) (None, None) b
      = (Inr (fold (\<lambda>m best. keep_best t best
                    (fst (minimax (next_active_turn t) (b[nat m := Some t])), m))
                 (available_positions b) (None, None)), b)"
    proof (rule mini_max_loop_fold [OF Suc.prems(1,2)])
      show "set (available_positions b) \<subseteq> set (available_positions b)" by simp
    next
      fix m assume m: "m \<in> set (available_positions b)"
      from available_less [OF m, of t] Suc.prems(3)
      have "length (available_positions (b[nat m := Some t])) < d" by simp
      with Suc.IH [OF mark_available(3) [OF Suc.prems(1,2) m] next_active_turn_valid]
      show "mini_max d (next_active_turn t) (b[nat m := Some t])
             = (Inr (minimax (next_active_turn t) (b[nat m := Some t])), b[nat m := Some t])"
        by simp
    qed
    with False show ?thesis by (simp add: minimax.simps [of t b])
  qed
qed

subsection \<open>What the loop keeps\<close>

lemma keep_best_Some:
  "keep_best t (Some a, Some i) (Some c, m) =
     (if t = self_symbol then (if a < c then (Some c, Some m) else (Some a, Some i))
      else (if c < a then (Some c, Some m) else (Some a, Some i)))"
  by (simp add: keep_best_def)

lemma keep_best_None: "keep_best t (None, x) (Some c, m) = (Some c, Some m)"
  by (simp add: keep_best_def)

lemma fold_keep_best:
  assumes "ms \<noteq> []"
  shows "\<exists>i < length ms.
           fold (\<lambda>m best. keep_best t best (Some (g m), m)) ms (None, None)
             = (Some (g (ms ! i)), Some (ms ! i))
           \<and> (\<forall>j < length ms. if t = self_symbol then g (ms ! j) \<le> g (ms ! i)
                               else g (ms ! i) \<le> g (ms ! j))
           \<and> (\<forall>j < i. g (ms ! j) \<noteq> g (ms ! i))"
  using assms
proof (induction ms rule: rev_nonempty_induct)
  case (single x)
  show ?case by (simp add: keep_best_None)
next
  case (snoc x xs)
  let ?F = "\<lambda>ms. fold (\<lambda>m best. keep_best t best (Some (g m), m)) ms (None, None)"
  from snoc.IH obtain i where i: "i < length xs"
    and r: "?F xs = (Some (g (xs ! i)), Some (xs ! i))"
    and all: "\<forall>j < length xs. if t = self_symbol then g (xs ! j) \<le> g (xs ! i)
                               else g (xs ! i) \<le> g (xs ! j)"
    and first: "\<forall>j < i. g (xs ! j) \<noteq> g (xs ! i)"
    by blast
  have F: "?F (xs @ [x]) = keep_best t (Some (g (xs ! i)), Some (xs ! i)) (Some (g x), x)"
    by (simp add: r)
  let ?better = "if t = self_symbol then g (xs ! i) < g x else g x < g (xs ! i)"
  show ?case
  proof (cases ?better)
    case True
    have "?F (xs @ [x]) = (Some (g ((xs @ [x]) ! length xs)), Some ((xs @ [x]) ! length xs))"
      using True unfolding F keep_best_Some by (simp split: if_splits)
    moreover have "\<forall>j < length (xs @ [x]).
        if t = self_symbol then g ((xs @ [x]) ! j) \<le> g ((xs @ [x]) ! length xs)
        else g ((xs @ [x]) ! length xs) \<le> g ((xs @ [x]) ! j)"
    proof (intro allI impI)
      fix j assume "j < length (xs @ [x])"
      then consider "j < length xs" | "j = length xs" by fastforce
      then show "if t = self_symbol then g ((xs @ [x]) ! j) \<le> g ((xs @ [x]) ! length xs)
        else g ((xs @ [x]) ! length xs) \<le> g ((xs @ [x]) ! j)"
      proof cases
        case 1
        with all True show ?thesis by (force simp: nth_append split: if_splits)
      next
        case 2
        then show ?thesis by simp
      qed
    qed
    moreover have "\<forall>j < length xs. g ((xs @ [x]) ! j) \<noteq> g ((xs @ [x]) ! length xs)"
    proof (intro allI impI)
      fix j assume j: "j < length xs"
      with all True show "g ((xs @ [x]) ! j) \<noteq> g ((xs @ [x]) ! length xs)"
        by (force simp: nth_append split: if_splits)
    qed
    ultimately show ?thesis
      by (intro exI [of _ "length xs"]) simp
  next
    case False
    have "?F (xs @ [x]) = (Some (g ((xs @ [x]) ! i)), Some ((xs @ [x]) ! i))"
      using False i unfolding F keep_best_Some by (simp add: nth_append split: if_splits)
    moreover have "\<forall>j < length (xs @ [x]).
        if t = self_symbol then g ((xs @ [x]) ! j) \<le> g ((xs @ [x]) ! i)
        else g ((xs @ [x]) ! i) \<le> g ((xs @ [x]) ! j)"
    proof (intro allI impI)
      fix j assume "j < length (xs @ [x])"
      then consider "j < length xs" | "j = length xs" by fastforce
      then show "if t = self_symbol then g ((xs @ [x]) ! j) \<le> g ((xs @ [x]) ! i)
        else g ((xs @ [x]) ! i) \<le> g ((xs @ [x]) ! j)"
      proof cases
        case 1
        with all i show ?thesis by (simp add: nth_append)
      next
        case 2
        with False i show ?thesis by (simp add: nth_append split: if_splits)
      qed
    qed
    moreover have "\<forall>j < i. g ((xs @ [x]) ! j) \<noteq> g ((xs @ [x]) ! i)"
      using first i by (simp add: nth_append)
    ultimately show ?thesis
      using i by (intro exI [of _ i]) simp
  qed
qed

lemma available_sorted: "sorted_wrt (<) (available_positions b)"
  unfolding available_positions_def by (simp add: sorted_wrt_map sorted_wrt_filter)

lemma available_nonempty:
  assumes "valid_board b" and "\<not> is_over b"
  shows "available_positions b \<noteq> []"
proof -
  from assms have "None \<in> set b" by (simp add: is_over_iff)
  then obtain i where "i < length b" "b ! i = None" by (auto simp: in_set_conv_nth)
  then have "int i \<in> set (available_positions b)" by (simp add: available_iff)
  then show ?thesis by auto
qed

lemma minimax_not_over:
  assumes "valid_board b" and "\<not> is_over b"
    and ch: "\<And>m. m \<in> set (available_positions b) \<Longrightarrow> \<exists>s. child_score t b m = Some s"
  shows "\<exists>i < length (available_positions b).
           minimax t b = (child_score t b (available_positions b ! i),
                          Some (available_positions b ! i))
           \<and> (\<forall>j < length (available_positions b).
                 if t = self_symbol
                 then the (child_score t b (available_positions b ! j))
                        \<le> the (child_score t b (available_positions b ! i))
                 else the (child_score t b (available_positions b ! i))
                        \<le> the (child_score t b (available_positions b ! j)))
           \<and> (\<forall>j < i. child_score t b (available_positions b ! j)
                         \<noteq> child_score t b (available_positions b ! i))"
proof -
  let ?ms = "available_positions b"
  let ?g = "\<lambda>m. the (child_score t b m)"
  have "minimax t b = fold (\<lambda>m best. keep_best t best (child_score t b m, m)) ?ms (None, None)"
    using assms(2) by (simp add: minimax.simps [of t b] child_score_def)
  also have "\<dots> = fold (\<lambda>m best. keep_best t best (Some (?g m), m)) ?ms (None, None)"
  proof (rule fold_cong [OF refl refl])
    fix m assume "m \<in> set ?ms"
    from ch [OF this] obtain s where "child_score t b m = Some s" by blast
    then show "(\<lambda>best. keep_best t best (child_score t b m, m))
             = (\<lambda>best. keep_best t best (Some (?g m), m))"
      by simp
  qed
  finally have mm: "minimax t b
      = fold (\<lambda>m best. keep_best t best (Some (?g m), m)) ?ms (None, None)" .
  from fold_keep_best [OF available_nonempty [OF assms(1,2)], of t ?g]
  obtain i where i: "i < length ?ms"
    and r: "fold (\<lambda>m best. keep_best t best (Some (?g m), m)) ?ms (None, None)
             = (Some (?g (?ms ! i)), Some (?ms ! i))"
    and all: "\<forall>j < length ?ms. if t = self_symbol then ?g (?ms ! j) \<le> ?g (?ms ! i)
                               else ?g (?ms ! i) \<le> ?g (?ms ! j)"
    and first: "\<forall>j < i. ?g (?ms ! j) \<noteq> ?g (?ms ! i)"
    by blast
  from i have "?ms ! i \<in> set ?ms" by simp
  from ch [OF this] obtain s where s: "child_score t b (?ms ! i) = Some s" by blast
  have "minimax t b = (child_score t b (?ms ! i), Some (?ms ! i))"
    unfolding mm r using s by simp
  moreover have "\<forall>j < i. child_score t b (?ms ! j) \<noteq> child_score t b (?ms ! i)"
  proof (intro allI impI)
    fix j assume "j < i"
    with first have "?g (?ms ! j) \<noteq> ?g (?ms ! i)" by blast
    then show "child_score t b (?ms ! j) \<noteq> child_score t b (?ms ! i)" by auto
  qed
  ultimately show ?thesis using i all by blast
qed

lemma final_score_range: "- 1 \<le> final_score b \<and> final_score b \<le> 1"
  by (simp add: final_score_def)

lemma minimax_some:
  "valid_board b \<Longrightarrow> t \<in> {''X'', ''O''}
     \<Longrightarrow> \<exists>s. fst (minimax t b) = Some s \<and> - 1 \<le> s \<and> s \<le> 1"
proof (induction "length (available_positions b)" arbitrary: t b rule: less_induct)
  case less
  show ?case
  proof (cases "is_over b")
    case True
    then show ?thesis using final_score_range [of b] by (simp add: minimax.simps [of t b])
  next
    case False
    have ch: "\<exists>s. child_score t b m = Some s \<and> - 1 \<le> s \<and> s \<le> 1"
      if m: "m \<in> set (available_positions b)" for m
      unfolding child_score_def
      using less.hyps [OF available_less [OF m] mark_available(3) [OF less.prems m]
          next_active_turn_valid] .
    then have "\<And>m. m \<in> set (available_positions b) \<Longrightarrow> \<exists>s. child_score t b m = Some s"
      by blast
    from minimax_not_over [OF less.prems(1) False this]
    obtain i where i: "i < length (available_positions b)"
      and r: "minimax t b = (child_score t b (available_positions b ! i),
                          Some (available_positions b ! i))"
      by blast
    from i have "available_positions b ! i \<in> set (available_positions b)" by simp
    from ch [OF this] r show ?thesis by simp
  qed
qed

lemma child_score_some:
  assumes "valid_board b" and "t \<in> {''X'', ''O''}" and "m \<in> set (available_positions b)"
  shows "\<exists>s. child_score t b m = Some s \<and> - 1 \<le> s \<and> s \<le> 1"
  unfolding child_score_def
  using minimax_some [OF mark_available(3) [OF assms] next_active_turn_valid] .

lemma minimax_best:
  assumes "valid_board b" and "t \<in> {''X'', ''O''}" and "\<not> is_over b"
  shows "\<exists>m s. minimax t b = (Some s, Some m) \<and> m \<in> set (available_positions b)
           \<and> child_score t b m = Some s
           \<and> (\<forall>m' \<in> set (available_positions b). \<exists>s'. child_score t b m' = Some s'
                 \<and> (if t = self_symbol then s' \<le> s else s \<le> s')
                 \<and> (m' < m \<longrightarrow> s' \<noteq> s))"
proof -
  let ?ms = "available_positions b"
  have ch: "\<And>m. m \<in> set ?ms \<Longrightarrow> \<exists>s. child_score t b m = Some s"
    using child_score_some [OF assms(1,2)] by blast
  from minimax_not_over [OF assms(1,3) ch]
  obtain i where i: "i < length ?ms"
    and r: "minimax t b = (child_score t b (?ms ! i), Some (?ms ! i))"
    and all: "\<forall>j < length ?ms.
                 if t = self_symbol
                 then the (child_score t b (?ms ! j)) \<le> the (child_score t b (?ms ! i))
                 else the (child_score t b (?ms ! i)) \<le> the (child_score t b (?ms ! j))"
    and first: "\<forall>j < i. child_score t b (?ms ! j) \<noteq> child_score t b (?ms ! i)"
    by blast
  let ?m = "?ms ! i"
  from i have mem: "?m \<in> set ?ms" by simp
  from ch [OF mem] obtain s where s: "child_score t b ?m = Some s" by blast
  have "\<exists>s'. child_score t b m' = Some s'
           \<and> (if t = self_symbol then s' \<le> s else s \<le> s') \<and> (m' < ?m \<longrightarrow> s' \<noteq> s)"
    if m': "m' \<in> set ?ms" for m'
  proof -
    from m' obtain j where j: "j < length ?ms" "m' = ?ms ! j" by (auto simp: in_set_conv_nth)
    from ch [OF m'] obtain s' where s': "child_score t b m' = Some s'" by blast
    have ord: "if t = self_symbol then s' \<le> s else s \<le> s'"
      using all j s s' by (auto split: if_splits)
    have "s' \<noteq> s" if lt: "m' < ?m"
    proof -
      have "j < i"
      proof (rule ccontr)
        assume "\<not> j < i"
        then consider "j = i" | "i < j" by fastforce
        then show False
        proof cases
          case 1
          with lt j show False by simp
        next
          case 2
          from sorted_wrt_nth_less [OF available_sorted 2 j(1)] lt j show False by simp
        qed
      qed
      with first j s s' show ?thesis by auto
    qed
    with s' ord show ?thesis by blast
  qed
  with r s mem show ?thesis by auto
qed

subsection \<open>The move the search returns\<close>

lemma move_score_child:
  assumes "valid_board b" and "t \<in> {''X'', ''O''}" and "m \<in> set (available_positions b)"
    and "length (available_positions b) \<le> d"
  shows "move_score d t b m = child_score t b m"
proof -
  note mk = mark_available [OF assms(1,2,3)]
  from available_less [OF assms(3), of t] assms(4)
  have "length (available_positions (b[nat m := Some t])) < d" by simp
  from mini_max_correct [OF mk(3) next_active_turn_valid this]
  show ?thesis by (simp add: move_score_def mk(1) child_score_def split: prod.splits)
qed

lemma tie_board_facts:
  "valid_board tie_board" "\<not> is_over tie_board" "length (available_positions tie_board) = 3"
  by (simp_all add: tie_board_def valid_board_iff is_over_def game_result_def game_result_on_def
      WIN_POSITIONS_def available_positions_def upt_rec numeral_eq_Suc)

lemma tie_board_search:
  "mini_max (Suc 3) ''X'' tie_board = (Inr (Some 1, Some 6), tie_board)"
  "move_score 3 ''X'' tie_board 8 = Some 1"
  "do_move (Suc 3) tie_board = (Inr (), tie_board[6 := Some ''X''])"
  unfolding tie_board_def by code_simp+

text \<open>
  Claim C7. On a valid board on which the game is not over, with \<^verbatim>\<open>X\<close> or \<^verbatim>\<open>O\<close> as the active
  turn and a stack deep enough, \<^verbatim>\<open>_mini_max\<close> returns a score \<open>s\<close> and a move \<open>m\<close>: \<open>m\<close> is an
  available position whose searched score is \<open>s\<close>; no available position has a better
  score (a greater one when the active turn is the player's symbol, a smaller one
  otherwise); no available position of a lower index reaches \<open>s\<close>; the available positions
  are the empty cells in ascending order. The board comes back as it was.
\<close>

theorem mini_max_first_best:
  assumes "valid_board b" and "\<not> is_over b" and "t \<in> {''X'', ''O''}"
    and "length (available_positions b) \<le> d"
  shows "\<exists>s m. mini_max (Suc d) t b = (Inr (Some s, Some m), b)
           \<and> m \<in> set (available_positions b)
           \<and> move_score d t b m = Some s
           \<and> (\<forall>m' \<in> set (available_positions b). \<exists>s'. move_score d t b m' = Some s'
                 \<and> (if t = self_symbol then s' \<le> s else s \<le> s')
                 \<and> (m' < m \<longrightarrow> s' \<noteq> s))
           \<and> sorted_wrt (<) (available_positions b)
           \<and> set (available_positions b) = {p. 0 \<le> p \<and> p < 9 \<and> b ! nat p = None}"
proof -
  from assms(1) have len: "length b = 9" by (simp add: valid_board_iff)
  from assms(4) have "length (available_positions b) < Suc d" by simp
  from mini_max_correct [OF assms(1,3) this]
  have mm: "mini_max (Suc d) t b = (Inr (minimax t b), b)" .
  have ms: "\<And>m. m \<in> set (available_positions b) \<Longrightarrow> move_score d t b m = child_score t b m"
    using move_score_child [OF assms(1,3) _ assms(4)] .
  have av: "set (available_positions b) = {p. 0 \<le> p \<and> p < 9 \<and> b ! nat p = None}"
    using len by (auto simp: available_iff)
  from minimax_best [OF assms(1,3,2)]
  obtain m s where r: "minimax t b = (Some s, Some m)" and m: "m \<in> set (available_positions b)"
    and c: "child_score t b m = Some s"
    and best: "\<forall>m' \<in> set (available_positions b). \<exists>s'. child_score t b m' = Some s'
                 \<and> (if t = self_symbol then s' \<le> s else s \<le> s')
                 \<and> (m' < m \<longrightarrow> s' \<noteq> s)"
    by blast
  have "\<forall>m' \<in> set (available_positions b). \<exists>s'. move_score d t b m' = Some s'
                 \<and> (if t = self_symbol then s' \<le> s else s \<le> s')
                 \<and> (m' < m \<longrightarrow> s' \<noteq> s)"
    using best ms by simp
  moreover have "mini_max (Suc d) t b = (Inr (Some s, Some m), b)"
    using mm r by simp
  moreover have "move_score d t b m = Some s" using ms [OF m] c by simp
  ultimately show ?thesis using m available_sorted [of b] av by blast
qed

theorem mini_max_first_best_witness:
  "valid_board tie_board \<and> \<not> is_over tie_board
   \<and> length (available_positions tie_board) \<le> 3
   \<and> mini_max (Suc 3) ''X'' tie_board = (Inr (Some 1, Some 6), tie_board)
   \<and> move_score 3 ''X'' tie_board 6 = Some 1
   \<and> move_score 3 ''X'' tie_board 8 = Some 1"
proof -
  have le: "length (available_positions tie_board) \<le> 3" by (simp add: tie_board_facts(3))
  have x: "''X'' \<in> {''X'', ''O''}" by simp
  from mini_max_first_best [OF tie_board_facts(1,2) x le]
  obtain s m where a: "mini_max (Suc 3) ''X'' tie_board = (Inr (Some s, Some m), tie_board)"
    and b: "move_score 3 ''X'' tie_board m = Some s"
    by blast
  from a tie_board_search(1) have "s = 1" "m = 6" by simp_all
  with b have "move_score 3 ''X'' tie_board 6 = Some 1" by simp
  with tie_board_facts(1,2) le tie_board_search(1,2) show ?thesis by (intro conjI)
qed

subsection \<open>The net effect of a move\<close>

lemma do_move_not_over:
  assumes "valid_board b" and "\<not> is_over b" and "length (available_positions b) < d"
  shows "\<exists>m \<in> set (available_positions b).
           do_move d b = (Inr (), b[nat m := Some ''X''])
           \<and> (if set b = {None} then m = 0 else snd (minimax ''X'' b) = Some m)"
proof (cases "set b = {None}")
  case True
  from assms(1) have len: "length b = 9" by (simp add: valid_board_iff)
  then have "b ! 0 \<in> set b" by simp
  with True have "b ! 0 = None" by simp
  with len have av: "0 \<in> set (available_positions b)" by (simp add: available_iff)
  from mark_available(1) [OF assms(1) _ av, of "''X''"] True assms(2)
  have "do_move d b = (Inr (), b[nat 0 := Some ''X''])"
    by (simp add: do_move_def self_symbol_def PLAYER_def)
  with av True show ?thesis by auto
next
  case False
  have x: "''X'' \<in> {''X'', ''O''}" by simp
  from minimax_best [OF assms(1) x assms(2)]
  obtain m s where r: "minimax ''X'' b = (Some s, Some m)"
    and m: "m \<in> set (available_positions b)"
    by blast
  from mini_max_correct [OF assms(1) x assms(3)] r
  have "mini_max d ''X'' b = (Inr (Some s, Some m), b)" by simp
  with mark_available(1) [OF assms(1) x m] False assms(2)
  have "do_move d b = (Inr (), b[nat m := Some ''X''])"
    by (simp add: do_move_def self_symbol_def PLAYER_def)
  with m r False show ?thesis by auto
qed

text \<open>
  Claim C5. On a valid board, with a stack deep enough for the search: when the game is
  over \<^verbatim>\<open>do_move\<close> leaves the board as it is; when it is not, \<^verbatim>\<open>do_move\<close> raises nothing and
  the board it leaves differs from the one it got in exactly one cell, which was empty
  and now holds \<^verbatim>\<open>X\<close>. The search itself hands the board back unchanged: every mark it
  made is undone.
\<close>

theorem do_move_net_effect:
  assumes "valid_board b" and "length (available_positions b) < d"
  shows "(is_over b \<longrightarrow> do_move d b = (Inr (), b))
    \<and> (\<not> is_over b \<longrightarrow>
          (\<exists>p \<in> set (available_positions b).
              b ! nat p = None
              \<and> do_move d b = (Inr (), b[nat p := Some ''X''])
              \<and> snd (do_move d b) ! nat p = Some ''X''
              \<and> length (snd (do_move d b)) = length b
              \<and> (\<forall>i. i \<noteq> nat p \<longrightarrow> snd (do_move d b) ! i = b ! i)))
    \<and> mini_max d self_symbol b = (fst (mini_max d self_symbol b), b)
    \<and> (\<exists>r. fst (mini_max d self_symbol b) = Inr r)"
proof -
  have x: "''X'' \<in> {''X'', ''O''}" by simp
  have over: "is_over b \<longrightarrow> do_move d b = (Inr (), b)" by (simp add: do_move_def)
  have "\<exists>p \<in> set (available_positions b).
              b ! nat p = None
              \<and> do_move d b = (Inr (), b[nat p := Some ''X''])
              \<and> snd (do_move d b) ! nat p = Some ''X''
              \<and> length (snd (do_move d b)) = length b
              \<and> (\<forall>i. i \<noteq> nat p \<longrightarrow> snd (do_move d b) ! i = b ! i)"
    if "\<not> is_over b"
  proof -
    from do_move_not_over [OF assms(1) that assms(2)]
    obtain m where m: "m \<in> set (available_positions b)"
      and dm: "do_move d b = (Inr (), b[nat m := Some ''X''])"
      by blast
    from m have "nat m < length b" "b ! nat m = None" by (auto simp: available_iff)
    with dm m show ?thesis by (intro bexI [of _ m]) simp_all
  qed
  moreover from mini_max_correct [OF assms(1) x assms(2)]
  have "mini_max d self_symbol b = (Inr (minimax ''X'' b), b)"
    by (simp add: self_symbol_def PLAYER_def)
  ultimately show ?thesis using over by simp
qed

theorem do_move_net_effect_witness:
  "valid_board tie_board \<and> length (available_positions tie_board) < Suc 3
   \<and> \<not> is_over tie_board
   \<and> do_move (Suc 3) tie_board = (Inr (), tie_board[6 := Some ''X''])
   \<and> mini_max (Suc 3) self_symbol tie_board
       = (fst (mini_max (Suc 3) self_symbol tie_board), tie_board)"
proof -
  have lt: "length (available_positions tie_board) < Suc 3" by (simp add: tie_board_facts(3))
  from do_move_net_effect [OF tie_board_facts(1) lt]
  have "mini_max (Suc 3) self_symbol tie_board
       = (fst (mini_max (Suc 3) self_symbol tie_board), tie_board)"
    by (elim conjE)
  with tie_board_facts(1,2) lt tie_board_search(3) show ?thesis by (intro conjI)
qed

subsection \<open>The checker is sound\<close>

lemma xsafe_moves_sound:
  "xsafe_moves n xt pre suf \<Longrightarrow>
     (if xt then \<exists>i < length suf. suf ! i = Blank \<and> xsafe n False (pre @ suf[i := Xs])
      else \<forall>i < length suf. suf ! i = Blank \<longrightarrow> xsafe n True (pre @ suf[i := Os]))"
proof (induction suf arbitrary: pre)
  case Nil
  then show ?case by simp
next
  case (Cons c suf)
  show ?case
  proof (cases xt)
    case True
    show ?thesis
    proof (cases "c = Blank \<and> xsafe n False (pre @ Xs # suf)")
      case t: True
      then have "(c # suf) ! 0 = Blank \<and> xsafe n False (pre @ (c # suf)[0 := Xs])" by simp
      then show ?thesis using True by (intro iffD2 [OF if_P [OF True]]) blast
    next
      case False
      with Cons.prems True have "xsafe_moves n xt (pre @ [c]) suf" by (auto split: if_splits)
      from Cons.IH [OF this] True obtain i where "i < length suf" "suf ! i = Blank"
        "xsafe n False ((pre @ [c]) @ suf[i := Xs])"
        by auto
      then have "Suc i < length (c # suf) \<and> (c # suf) ! Suc i = Blank
          \<and> xsafe n False (pre @ (c # suf)[Suc i := Xs])"
        by simp
      then show ?thesis using True by (intro iffD2 [OF if_P [OF True]]) blast
    qed
  next
    case False
    have "xsafe n True (pre @ (c # suf)[i := Os])"
      if i: "i < length (c # suf)" "(c # suf) ! i = Blank" for i
    proof (cases i)
      case 0
      with i Cons.prems False show ?thesis by (auto split: if_splits)
    next
      case (Suc j)
      from Cons.prems False have "xsafe_moves n xt (pre @ [c]) suf" by (auto split: if_splits)
      from Cons.IH [OF this] False
      have "\<forall>i < length suf. suf ! i = Blank \<longrightarrow> xsafe n True ((pre @ [c]) @ suf[i := Os])"
        by simp
      with i Suc show ?thesis by simp
    qed
    with False show ?thesis by simp
  qed
qed

lemma completes_symbol:
  assumes "valid_board b" and "l \<in> set WIN_POSITIONS" and "completes b s l"
  shows "s = ''X'' \<or> s = ''O''"
proof -
  obtain p0 p1 p2 where l: "l = (p0, p1, p2)" by (cases l) auto
  with assms(2) have "p0 < 9" by (auto dest: line_in_range)
  from valid_cell [OF assms(1) this] assms(3) show ?thesis
    unfolding l completes_def by auto
qed

lemma winner_completes:
  assumes "valid_board b" and "winner b = Some s"
  shows "\<exists>l \<in> set WIN_POSITIONS. completes b s l"
  using game_result_cases [OF assms(1)] assms(2) unfolding winner_def by auto

lemma nine_cells:
  "length a = 9 \<Longrightarrow> \<exists>a0 a1 a2 a3 a4 a5 a6 a7 a8. a = [a0, a1, a2, a3, a4, a5, a6, a7, a8]"
  by (auto simp: eval_nat_numeral length_Suc_conv)

lemma cell_of_X [simp]: "cell_of x = Some ''X'' \<longleftrightarrow> x = Xs"
  by (cases x) auto

lemma cell_of_O [simp]: "cell_of x = Some ''O'' \<longleftrightarrow> x = Os"
  by (cases x) auto

lemma cell_of_None [simp]: "cell_of x = None \<longleftrightarrow> x = Blank"
  by (cases x) auto

lemma has_line_O:
  assumes "length a = 9"
  shows "has_line Os a \<longleftrightarrow> (\<exists>l \<in> set WIN_POSITIONS. completes (conc a) ''O'' l)"
proof -
  from nine_cells [OF assms] obtain a0 a1 a2 a3 a4 a5 a6 a7 a8
    where "a = [a0, a1, a2, a3, a4, a5, a6, a7, a8]" by blast
  then show ?thesis by (simp add: WIN_POSITIONS_def completes_def conc_def)
qed

lemma has_line_X:
  assumes "length a = 9"
  shows "has_line Xs a \<longleftrightarrow> (\<exists>l \<in> set WIN_POSITIONS. completes (conc a) ''X'' l)"
proof -
  from nine_cells [OF assms] obtain a0 a1 a2 a3 a4 a5 a6 a7 a8
    where "a = [a0, a1, a2, a3, a4, a5, a6, a7, a8]" by blast
  then show ?thesis by (simp add: WIN_POSITIONS_def completes_def conc_def)
qed

lemma conc_valid: "length a = 9 \<Longrightarrow> valid_board (conc a)"
proof -
  assume len: "length a = 9"
  have "set (conc a) \<subseteq> {Some ''X'', Some ''O'', None}"
  proof
    fix c assume "c \<in> set (conc a)"
    then obtain x where "c = cell_of x" by (auto simp: conc_def)
    then show "c \<in> {Some ''X'', Some ''O'', None}" by (cases x) auto
  qed
  with len show ?thesis unfolding valid_board_iff by (simp add: conc_def)
qed

lemma some_line_conc:
  assumes "length a = 9"
  shows "some_line (conc a) \<longleftrightarrow> has_line Xs a \<or> has_line Os a"
proof -
  have "some_line (conc a) \<longleftrightarrow>
      (\<exists>l \<in> set WIN_POSITIONS. completes (conc a) ''X'' l \<or> completes (conc a) ''O'' l)"
    unfolding some_line_def using completes_symbol [OF conc_valid [OF assms]] by blast
  then show ?thesis unfolding has_line_O [OF assms] has_line_X [OF assms] by blast
qed

lemma conc_None: "None \<in> set (conc a) \<longleftrightarrow> Blank \<in> set a"
proof
  assume "None \<in> set (conc a)"
  then obtain x where x: "x \<in> set a" "None = cell_of x" by (auto simp: conc_def)
  have "x = Blank" using x(2) by (cases x) auto
  with x show "Blank \<in> set a" by simp
next
  assume "Blank \<in> set a"
  then have "cell_of Blank \<in> set (conc a)" unfolding conc_def by (simp only: set_map imageI)
  then show "None \<in> set (conc a)" by simp
qed

lemma conc_update: "(conc a)[i := cell_of x] = conc (a[i := x])"
  by (simp add: conc_def map_update)

lemma xsafe_sound:
  "length a = 9 \<Longrightarrow> xsafe n xt a \<Longrightarrow> \<not> opp_forced_win (if xt then ''X'' else ''O'') (conc a)"
proof (induction n arbitrary: xt a)
  case 0
  then show ?case by simp
next
  case (Suc n)
  let ?b = "conc a"
  let ?t = "if xt then ''X'' else ''O''"
  note v = conc_valid [OF Suc.prems(1)]
  from Suc.prems(2) have noO: "\<not> has_line Os a" by (auto split: if_splits)
  have wO: "winner ?b \<noteq> Some ''O''"
    using winner_completes [OF v, of "''O''"] noO has_line_O [OF Suc.prems(1)] by blast
  show ?case
  proof (cases "is_over ?b")
    case True
    with wO show ?thesis by (simp add: opp_forced_win.simps [of ?t ?b] OPPONENT_PLAYER_def)
  next
    case False
    then have nl: "\<not> has_line Xs a" "Blank \<in> set a"
      using is_over_iff [OF v] some_line_conc [OF Suc.prems(1)] conc_None [of a] by auto
    with Suc.prems(2) noO have mv: "xsafe_moves n xt [] a" by simp
    show ?thesis
    proof (cases xt)
      case True
      from xsafe_moves_sound [OF mv] True obtain i where i: "i < length a" "a ! i = Blank"
        and s: "xsafe n False (a[i := Xs])"
        by auto
      from i have av: "int i \<in> set (available_positions ?b)"
        by (simp add: available_iff conc_def)
      from Suc.IH [OF _ s] Suc.prems(1)
      have "\<not> opp_forced_win ''O'' (conc (a[i := Xs]))" by simp
      then have "\<not> opp_forced_win ''O'' (?b[nat (int i) := Some ''X''])"
        using conc_update [of a i Xs] by simp
      with av have "\<exists>p \<in> set (available_positions ?b).
          \<not> opp_forced_win ''O'' (?b[nat p := Some ''X''])"
        by (rule bexI [rotated])
      with False True show ?thesis
        unfolding opp_forced_win.simps [of ?t ?b]
        by (simp add: OPPONENT_PLAYER_def PLAYER_def)
    next
      case xf: False
      have "\<not> opp_forced_win ''X'' (?b[nat p := Some ''O''])"
        if p: "p \<in> set (available_positions ?b)" for p
      proof -
        from p have i: "nat p < length a" "a ! nat p = Blank"
          by (auto simp: available_iff conc_def)
        with xsafe_moves_sound [OF mv] xf have "xsafe n True (a[nat p := Os])" by simp
        from Suc.IH [OF _ this] Suc.prems(1)
        have "\<not> opp_forced_win ''X'' (conc (a[nat p := Os]))" by simp
        then show ?thesis using conc_update [of a "nat p" Os] by simp
      qed
      with False xf show ?thesis
        unfolding opp_forced_win.simps [of ?t ?b]
        by (auto simp: OPPONENT_PLAYER_def PLAYER_def)
    qed
  qed
qed

lemma corner_opening_safe:
  "\<not> opp_forced_win ''O'' [Some ''X'', None, None, None, None, None, None, None, None]"
proof -
  have "xsafe 10 False [Xs, Blank, Blank, Blank, Blank, Blank, Blank, Blank, Blank]"
    by code_simp
  from xsafe_sound [OF _ this] show ?thesis by (simp add: conc_def)
qed

lemma empty_board_safe:
  "\<not> opp_forced_win ''X'' empty_board" "\<not> opp_forced_win ''O'' empty_board"
proof -
  have x: "xsafe 10 True [Blank, Blank, Blank, Blank, Blank, Blank, Blank, Blank, Blank]"
    by code_simp
  have o: "xsafe 10 False [Blank, Blank, Blank, Blank, Blank, Blank, Blank, Blank, Blank]"
    by code_simp
  have e: "empty_board = conc [Blank, Blank, Blank, Blank, Blank, Blank, Blank, Blank, Blank]"
    by (simp add: empty_board_def conc_def eval_nat_numeral)
  from xsafe_sound [OF _ x] show "\<not> opp_forced_win ''X'' empty_board" unfolding e by simp
  from xsafe_sound [OF _ o] show "\<not> opp_forced_win ''O'' empty_board" unfolding e by simp
qed

subsection \<open>The score of the search and forced wins\<close>

lemma winner_symbol:
  assumes "valid_board b"
  shows "winner b = None \<or> winner b = Some ''X'' \<or> winner b = Some ''O''"
proof (cases "winner b")
  case None
  then show ?thesis by simp
next
  case (Some s)
  from winner_completes [OF assms Some] completes_symbol [OF assms] Some show ?thesis by blast
qed

lemma final_score_lost:
  "valid_board b \<Longrightarrow> final_score b = - 1 \<longleftrightarrow> winner b = Some ''O''"
  using winner_symbol [of b] by (auto simp: final_score_def self_symbol_def PLAYER_def)

lemma forced_over: "is_over b \<Longrightarrow> opp_forced_win t b \<longleftrightarrow> winner b = Some ''O''"
  by (simp add: opp_forced_win.simps [of t b] OPPONENT_PLAYER_def)

lemma forced_X:
  "\<not> is_over b \<Longrightarrow> opp_forced_win ''X'' b \<longleftrightarrow>
     (\<forall>p \<in> set (available_positions b). opp_forced_win ''O'' (b[nat p := Some ''X'']))"
  by (simp add: opp_forced_win.simps [of "''X''" b] OPPONENT_PLAYER_def PLAYER_def)

lemma forced_O:
  "\<not> is_over b \<Longrightarrow> opp_forced_win ''O'' b \<longleftrightarrow>
     (\<exists>p \<in> set (available_positions b). opp_forced_win ''X'' (b[nat p := Some ''O'']))"
  by (simp add: opp_forced_win.simps [of "''O''" b] OPPONENT_PLAYER_def PLAYER_def)

lemma minimax_forced:
  "valid_board b \<Longrightarrow> t \<in> {''X'', ''O''}
     \<Longrightarrow> fst (minimax t b) = Some (- 1) \<longleftrightarrow> opp_forced_win t b"
proof (induction "length (available_positions b)" arbitrary: t b rule: less_induct)
  case less
  show ?case
  proof (cases "is_over b")
    case True
    then show ?thesis
      using final_score_lost [OF less.prems(1)]
      by (simp add: minimax.simps [of t b] forced_over)
  next
    case False
    have IH: "child_score t b m = Some (- 1)
        \<longleftrightarrow> opp_forced_win (next_active_turn t) (b[nat m := Some t])"
      if m: "m \<in> set (available_positions b)" for m
      unfolding child_score_def
      using less.hyps [OF available_less [OF m] mark_available(3) [OF less.prems m]
          next_active_turn_valid] .
    from minimax_best [OF less.prems False]
    obtain m s where r: "minimax t b = (Some s, Some m)"
      and m: "m \<in> set (available_positions b)"
      and c: "child_score t b m = Some s"
      and best: "\<forall>m' \<in> set (available_positions b). \<exists>s'. child_score t b m' = Some s'
                 \<and> (if t = self_symbol then s' \<le> s else s \<le> s')
                 \<and> (m' < m \<longrightarrow> s' \<noteq> s)"
      by blast
    have low: "\<And>m'. m' \<in> set (available_positions b)
        \<Longrightarrow> \<exists>s'. child_score t b m' = Some s' \<and> - 1 \<le> s'"
      using child_score_some [OF less.prems] by blast
    show ?thesis
    proof (cases "t = ''X''")
      case True
      have "s = - 1 \<longleftrightarrow> (\<forall>m' \<in> set (available_positions b). child_score t b m' = Some (- 1))"
      proof
        assume s: "s = - 1"
        show "\<forall>m' \<in> set (available_positions b). child_score t b m' = Some (- 1)"
        proof
          fix m' assume m': "m' \<in> set (available_positions b)"
          from best m' True obtain s' where "child_score t b m' = Some s'" "s' \<le> s"
            by (auto simp: self_symbol_def PLAYER_def)
          with low [OF m'] s show "child_score t b m' = Some (- 1)" by auto
        qed
      next
        assume "\<forall>m' \<in> set (available_positions b). child_score t b m' = Some (- 1)"
        with m c show "s = - 1" by auto
      qed
      also have "\<dots> \<longleftrightarrow> (\<forall>m' \<in> set (available_positions b).
          opp_forced_win ''O'' (b[nat m' := Some ''X'']))"
        using IH True by (simp add: next_active_turn_def)
      finally show ?thesis
        using True r by (simp add: forced_X [OF False])
    next
      case nx: False
      with less.prems(2) have t: "t = ''O''" by simp
      have "s = - 1 \<longleftrightarrow> (\<exists>m' \<in> set (available_positions b). child_score t b m' = Some (- 1))"
      proof
        assume "s = - 1"
        with m c show "\<exists>m' \<in> set (available_positions b). child_score t b m' = Some (- 1)"
          by auto
      next
        assume "\<exists>m' \<in> set (available_positions b). child_score t b m' = Some (- 1)"
        then obtain m' where m': "m' \<in> set (available_positions b)"
          and c': "child_score t b m' = Some (- 1)" by blast
        from best m' t c' have "s \<le> - 1" by (auto simp: self_symbol_def PLAYER_def)
        with low [OF m] c show "s = - 1" by auto
      qed
      also have "\<dots> \<longleftrightarrow> (\<exists>m' \<in> set (available_positions b).
          opp_forced_win ''X'' (b[nat m' := Some ''O'']))"
        using IH t by (simp add: next_active_turn_def)
      finally show ?thesis
        using t r by (simp add: forced_O [OF False])
    qed
  qed
qed

subsection \<open>The computer does not lose\<close>

lemma available_length: "length (available_positions b) \<le> length b"
  using length_filter_le [of "\<lambda>pos. b ! pos = None" "[0..<length b]"]
  by (simp add: available_positions_def)

lemma all_None_empty:
  assumes "valid_board b" and "set b = {None}"
  shows "b = empty_board"
proof -
  from assms(1) have "length b = 9" by (simp add: valid_board_iff)
  then show ?thesis unfolding empty_board_def using assms(2) by (intro replicate_eqI) auto
qed

lemma corner_board:
  "empty_board[nat 0 := Some ''X''] = [Some ''X'', None, None, None, None, None, None, None, None]"
  by (simp add: empty_board_def eval_nat_numeral)

lemma computer_keeps_safe:
  assumes v: "valid_board b" and a: "\<not> is_over b" and s: "\<not> opp_forced_win ''X'' b"
    and d: "9 < d"
  shows "\<exists>m \<in> set (available_positions b).
           do_move d b = (Inr (), b[nat m := Some ''X''])
           \<and> valid_board (b[nat m := Some ''X''])
           \<and> \<not> opp_forced_win ''O'' (b[nat m := Some ''X''])"
proof -
  have x: "''X'' \<in> {''X'', ''O''}" by simp
  from v have "length b = 9" by (simp add: valid_board_iff)
  with available_length [of b] d have len: "length (available_positions b) < d" by simp
  from do_move_not_over [OF v a len]
  obtain m where m: "m \<in> set (available_positions b)"
    and dm: "do_move d b = (Inr (), b[nat m := Some ''X''])"
    and which: "if set b = {None} then m = 0 else snd (minimax ''X'' b) = Some m"
    by blast
  note v' = mark_available(3) [OF v x m]
  have "\<not> opp_forced_win ''O'' (b[nat m := Some ''X''])"
  proof (cases "set b = {None}")
    case True
    with which all_None_empty [OF v] corner_board corner_opening_safe show ?thesis by simp
  next
    case False
    from minimax_best [OF v x a]
    obtain m' s' where r: "minimax ''X'' b = (Some s', Some m')"
      and c: "child_score ''X'' b m' = Some s'"
      by blast
    from which False r have "m' = m" by simp
    from s minimax_forced [OF v x] r have "s' \<noteq> - 1" by auto
    with c \<open>m' = m\<close> have "child_score ''X'' b m \<noteq> Some (- 1)" by simp
    then have "fst (minimax ''O'' (b[nat m := Some ''X''])) \<noteq> Some (- 1)"
      by (simp add: child_score_def next_active_turn_def)
    with minimax_forced [OF v', of "''O''"] show ?thesis by simp
  qed
  with m dm v' show ?thesis by blast
qed

lemma play_step_safe:
  assumes d: "9 < d" and st: "play_step d (t, b) (t', b')"
    and v: "valid_board b" and t: "t \<in> {''X'', ''O''}" and s: "\<not> opp_forced_win t b"
  shows "valid_board b' \<and> t' \<in> {''X'', ''O''} \<and> \<not> opp_forced_win t' b'"
  using st
proof (cases rule: play_step.cases)
  case computer
  with s have sx: "\<not> opp_forced_win ''X'' b" by (simp add: PLAYER_def)
  from computer_keeps_safe [OF v computer(3) sx d] computer(4)
  have "valid_board b' \<and> \<not> opp_forced_win ''O'' b'" by auto
  with computer(2) show ?thesis by (simp add: OPPONENT_PLAYER_def)
next
  case (opponent p)
  have o: "''O'' \<in> {''X'', ''O''}" by simp
  from opponent(5) mark_available(1) [OF v o opponent(4)]
  have b': "b' = b[nat p := Some ''O'']" by (simp add: OPPONENT_PLAYER_def)
  from opponent(1) s have "\<not> opp_forced_win ''O'' b" by (simp add: OPPONENT_PLAYER_def)
  with forced_O [OF opponent(3)] opponent(4) have "\<not> opp_forced_win ''X'' b'"
    unfolding b' by blast
  with mark_available(3) [OF v o opponent(4)] opponent(2) show ?thesis
    unfolding b' by (simp add: PLAYER_def)
qed

lemma play_safe:
  assumes d: "9 < d" and st: "rtranclp (play_step d) (t, b) (t', b')"
    and v: "valid_board b" and t: "t \<in> {''X'', ''O''}" and s: "\<not> opp_forced_win t b"
  shows "valid_board b' \<and> t' \<in> {''X'', ''O''} \<and> \<not> opp_forced_win t' b'"
  using st
proof (induction rule: rtranclp_induct2)
  case refl
  from v t s show ?case by simp
next
  case (step t1 b1 t2 b2)
  from play_step_safe [OF d step.hyps(2)] step.IH show ?case by blast
qed

lemma over_outcome:
  assumes "valid_board b" and "is_over b"
  shows "(status b = DRAW \<and> winner b = None) \<or> (status b = WIN \<and> winner b \<noteq> None)"
  using game_result_cases [OF assms(1)] assms(2)
  unfolding status_def winner_def is_over_def by auto

lemma do_move_corner:
  "do_move d empty_board = (Inr (), [Some ''X'', None, None, None, None, None, None, None, None])"
  using is_over_empty
  by (simp add: do_move_def empty_board_def mark_cases self_symbol_def PLAYER_def eval_nat_numeral)

text \<open>
  Claim C1, amended. The claim fails from a board on which the opponent already has a
  forced win: on \<open>lost_board\<close> the computer moves, the opponent answers at 6 and wins
  (\<open>computer_loses_counterexample\<close> below). What holds: from every valid board and turn
  from which the opponent has no forced win, in a game in which the computer plays each
  of X's turns with \<^verbatim>\<open>do_move\<close> (at least ten stack frames) and the opponent marks empty
  cells as it likes, no board is reached from which the opponent has a forced win;
  \<^verbatim>\<open>do_move\<close> never fails there; and a finished game is a draw or a win of \<^verbatim>\<open>X\<close>, never a win
  of \<^verbatim>\<open>O\<close>. The empty board is such a start, whoever moves first.
\<close>

theorem computer_never_loses:
  "(valid_board b \<and> t \<in> {''X'', ''O''} \<and> \<not> opp_forced_win t b \<and> 9 < d
      \<and> rtranclp (play_step d) (t, b) (t', b')
    \<longrightarrow> valid_board b' \<and> \<not> opp_forced_win t' b'
        \<and> (is_over b' \<longrightarrow> winner b' \<noteq> Some ''O''
              \<and> (status b' = DRAW \<or> status b' = WIN \<and> winner b' = Some ''X''))
        \<and> (\<not> is_over b' \<and> t' = ''X'' \<longrightarrow> (\<exists>b''. play_step d (''X'', b') (''O'', b''))))
   \<and> valid_board empty_board
   \<and> \<not> opp_forced_win ''X'' empty_board
   \<and> \<not> opp_forced_win ''O'' empty_board"
proof -
  have main: "valid_board b' \<and> \<not> opp_forced_win t' b'
        \<and> (is_over b' \<longrightarrow> winner b' \<noteq> Some ''O''
              \<and> (status b' = DRAW \<or> status b' = WIN \<and> winner b' = Some ''X''))
        \<and> (\<not> is_over b' \<and> t' = ''X'' \<longrightarrow> (\<exists>b''. play_step d (''X'', b') (''O'', b'')))"
    if v: "valid_board b" and t: "t \<in> {''X'', ''O''}" and s: "\<not> opp_forced_win t b"
      and d: "9 < d" and st: "rtranclp (play_step d) (t, b) (t', b')"
  proof -
    from play_safe [OF d st v t s]
    have v': "valid_board b'" and s': "\<not> opp_forced_win t' b'" by simp_all
    have fin: "winner b' \<noteq> Some ''O''
        \<and> (status b' = DRAW \<or> status b' = WIN \<and> winner b' = Some ''X'')" if o: "is_over b'"
    proof -
      from s' forced_over [OF o] have w: "winner b' \<noteq> Some ''O''" by simp
      with over_outcome [OF v' o] winner_symbol [OF v'] show ?thesis by auto
    qed
    have nxt: "\<exists>b''. play_step d (''X'', b') (''O'', b'')" if a: "\<not> is_over b'" and x: "t' = ''X''"
    proof -
      from computer_keeps_safe [OF v' a _ d] s' x
      obtain b'' where "do_move d b' = (Inr (), b'')" by blast
      from play_step.computer [OF a this] show ?thesis
        by (auto simp: PLAYER_def OPPONENT_PLAYER_def)
    qed
    from v' s' fin nxt show ?thesis by blast
  qed
  have "valid_board empty_board" by (simp add: valid_board_iff empty_board_def)
  with main empty_board_safe show ?thesis by blast
qed

theorem computer_never_loses_witness:
  "valid_board empty_board
   \<and> \<not> opp_forced_win ''X'' empty_board
   \<and> (9::nat) < 10
   \<and> rtranclp (play_step 10) (''X'', empty_board)
        (''O'', [Some ''X'', None, None, None, None, None, None, None, None])
   \<and> valid_board [Some ''X'', None, None, None, None, None, None, None, None]
   \<and> \<not> opp_forced_win ''O'' [Some ''X'', None, None, None, None, None, None, None, None]"
proof -
  let ?b1 = "[Some ''X'', None, None, None, None, None, None, None, None]"
  have v: "valid_board empty_board" by (simp add: valid_board_iff empty_board_def)
  have x: "''X'' \<in> {''X'', ''O''}" by simp
  have d: "(9::nat) < 10" by simp
  from play_step.computer [OF is_over_empty do_move_corner, of 10]
  have "play_step 10 (''X'', empty_board) (''O'', ?b1)"
    by (simp add: PLAYER_def OPPONENT_PLAYER_def)
  then have st: "rtranclp (play_step 10) (''X'', empty_board) (''O'', ?b1)" by (rule r_into_rtranclp)
  from computer_never_loses [of empty_board "''X''" 10 "''O''" ?b1] v x empty_board_safe(1) d st
  have "valid_board ?b1 \<and> \<not> opp_forced_win ''O'' ?b1" by blast
  with v empty_board_safe(1) d st show ?thesis by blast
qed

theorem computer_loses_counterexample:
  "valid_board lost_board
   \<and> \<not> is_over lost_board
   \<and> do_move 10 lost_board
       = (Inr (), [Some ''O'', Some ''O'', Some ''X'', Some ''O'', Some ''X'', None, None, None, Some ''X''])
   \<and> \<not> is_over [Some ''O'', Some ''O'', Some ''X'', Some ''O'', Some ''X'', None, None, None, Some ''X'']
   \<and> 6 \<in> set (available_positions
         [Some ''O'', Some ''O'', Some ''X'', Some ''O'', Some ''X'', None, None, None, Some ''X''])
   \<and> mark ''O'' 6 [Some ''O'', Some ''O'', Some ''X'', Some ''O'', Some ''X'', None, None, None, Some ''X'']
       = (Inr (), [Some ''O'', Some ''O'', Some ''X'', Some ''O'', Some ''X'', None, Some ''O'', None, Some ''X''])
   \<and> rtranclp (play_step 10) (''X'', lost_board)
        (''X'', [Some ''O'', Some ''O'', Some ''X'', Some ''O'', Some ''X'', None, Some ''O'', None, Some ''X''])
   \<and> status [Some ''O'', Some ''O'', Some ''X'', Some ''O'', Some ''X'', None, Some ''O'', None, Some ''X'']
       = WIN
   \<and> winner [Some ''O'', Some ''O'', Some ''X'', Some ''O'', Some ''X'', None, Some ''O'', None, Some ''X'']
       = Some ''O''"
proof -
  let ?b1 = "[Some ''O'', Some ''O'', Some ''X'', Some ''O'', Some ''X'', None, None, None, Some ''X'']"
  let ?b2 = "[Some ''O'', Some ''O'', Some ''X'', Some ''O'', Some ''X'', None, Some ''O'', None, Some ''X'']"
  have v: "valid_board lost_board" by (simp add: valid_board_iff lost_board_def)
  have a0: "\<not> is_over lost_board" unfolding lost_board_def by code_simp
  have m1: "do_move 10 lost_board = (Inr (), ?b1)" unfolding lost_board_def by code_simp
  have a1: "\<not> is_over ?b1" by code_simp
  have p: "6 \<in> set (available_positions ?b1)" by (simp add: available_iff)
  have m2: "mark ''O'' 6 ?b1 = (Inr (), ?b2)" by (simp add: mark_cases)
  have w: "status ?b2 = WIN" "winner ?b2 = Some ''O''" by code_simp+
  from play_step.computer [OF a0 m1]
  have s1: "play_step 10 (''X'', lost_board) (''O'', ?b1)"
    by (simp add: PLAYER_def OPPONENT_PLAYER_def)
  from play_step.opponent [OF a1 p, of ?b2 10] m2
  have s2: "play_step 10 (''O'', ?b1) (''X'', ?b2)"
    by (simp add: PLAYER_def OPPONENT_PLAYER_def)
  from s1 s2 have "rtranclp (play_step 10) (''X'', lost_board) (''X'', ?b2)" by auto
  with v a0 m1 a1 p m2 w show ?thesis by (intro conjI)
qed

subsection \<open>A position with two O in the top row\<close>

lemma block_search:
  "do_move 7 [Some ''O'', Some ''O'', None, Some ''X'', None, None, None, None, None]
     = (Inr (), [Some ''O'', Some ''O'', Some ''X'', Some ''X'', None, None, None, None, None])"
  by code_simp

text \<open>
  Claim C8. On the board \<^verbatim>\<open>[O, O, None, X, None, None, None, None, None]\<close> \<^verbatim>\<open>do_move\<close> marks
  position 2 with \<^verbatim>\<open>X\<close>, and the status of the board it leaves is \<^verbatim>\<open>ACTIVE\<close>; this with any
  stack of seven frames or more.
\<close>

theorem do_move_blocks:
  "do_move (7 + k) [Some ''O'', Some ''O'', None, Some ''X'', None, None, None, None, None]
     = (Inr (), [Some ''O'', Some ''O'', None, Some ''X'', None, None, None, None, None]
                  [2 := Some ''X''])
   \<and> [Some ''O'', Some ''O'', None, Some ''X'', None, None, None, None, None][2 := Some ''X'']
       = [Some ''O'', Some ''O'', Some ''X'', Some ''X'', None, None, None, None, None]
   \<and> status [Some ''O'', Some ''O'', Some ''X'', Some ''X'', None, None, None, None, None] = ACTIVE"
proof -
  let ?b = "[Some ''O'', Some ''O'', None, Some ''X'', None, None, None, None, None]"
  let ?b' = "[Some ''O'', Some ''O'', Some ''X'', Some ''X'', None, None, None, None, None]"
  have v: "valid_board ?b" by (simp add: valid_board_iff)
  have a: "\<not> is_over ?b"
    by (simp add: is_over_def game_result_def game_result_on_def WIN_POSITIONS_def)
  have n: "length (available_positions ?b) = 6"
    by (simp add: available_positions_def upt_rec)
  have ne: "set ?b \<noteq> {None}" by auto
  from do_move_not_over [OF v a, of 7] n ne
  obtain m where m: "m \<in> set (available_positions ?b)"
    and d7: "do_move 7 ?b = (Inr (), ?b[nat m := Some ''X''])"
    and mm: "snd (minimax ''X'' ?b) = Some m"
    by auto
  from m have m9: "0 \<le> m" "nat m < 9" "?b ! nat m = None" by (auto simp: available_iff)
  from d7 block_search have eq: "?b[nat m := Some ''X''] = ?b'" by simp
  have "nat m = 2"
  proof (rule ccontr)
    assume "nat m \<noteq> 2"
    then have "?b[nat m := Some ''X''] ! 2 = ?b ! 2" by (rule nth_list_update_neq)
    then have "?b' ! 2 = ?b ! 2" by (simp only: eq)
    then show False by simp
  qed
  with m9 have m2: "m = 2" by simp
  from do_move_not_over [OF v a, of "7 + k"] n ne
  obtain m' where "do_move (7 + k) ?b = (Inr (), ?b[nat m' := Some ''X''])"
    and "snd (minimax ''X'' ?b) = Some m'"
    by auto
  with mm m2 have "do_move (7 + k) ?b = (Inr (), ?b[2 := Some ''X''])" by simp
  moreover have "status ?b' = ACTIVE"
    by (simp add: status_def game_result_def game_result_on_def WIN_POSITIONS_def)
  ultimately show ?thesis by simp
qed

end
